theory Spec2Isabelle
  imports Complex_Main
begin

section \<open>Data model\<close>

text \<open>
  The sources compute with IEEE doubles (\<^verbatim>\<open>number\<close> in TypeScript, \<^verbatim>\<open>double\<close> in C++).
  A finite double is a rational, so every time, cooldown, damage and percentage is a
  \<^typ>\<open>rat\<close>. The searches and the optimizer are first embedded with exact arithmetic:
  the comparisons, their order and their tolerances are the ones of the source, and no
  operation rounds. The depth-first search is then embedded a second time with every
  operation rounded as the source rounds it (\<open>dfsRounded\<close> below), for the claims whose
  truth depends on the rounding.
\<close>

record Skill =
  skillName :: string
  castTimeS :: rat
  recastTimeS :: rat
  damage :: rat
  possibleSkillGear :: "rat list"

record ScheduleResult =
  totalDamage :: rat
  sequence :: "string list"

text \<open>
  The two values of a JavaScript number that no rational denotes and that the
  optimizer can produce: \<^verbatim>\<open>Number.POSITIVE_INFINITY\<close> (the initial
  \<^verbatim>\<open>bestGearCost\<close>, and a positive damage divided by a zero \<^verbatim>\<open>timeLimit\<close>) and
  \<^verbatim>\<open>NaN\<close> (\<^verbatim>\<open>0 / 0\<close>). The sign of zero is not modelled.
\<close>

datatype number = Num rat | Infinity | NegInfinity | NaN

fun numLess :: "rat \<Rightarrow> number \<Rightarrow> bool" where
  "numLess a (Num b) = (a < b)"
| "numLess a Infinity = True"
| "numLess a NegInfinity = False"
| "numLess a NaN = False"

definition numDivide :: "rat \<Rightarrow> rat \<Rightarrow> number" where
  "numDivide a b =
     (if b \<noteq> 0 then Num (a / b)
      else if a = 0 then NaN
      else if 0 < a then Infinity
      else NegInfinity)"

section \<open>GearComboEnumerator: \<^verbatim>\<open>generateAllGearChoices\<close>\<close>

text \<open>
  \<^verbatim>\<open>current[index] = gearPercent\<close> on a JavaScript array: an index below the length
  overwrites, the index equal to the length appends. \<^verbatim>\<open>backtrack\<close> is entered with
  \<^verbatim>\<open>index \<le> current.length\<close> (it starts at \<^verbatim>\<open>(0, [])\<close> and writes position
  \<^verbatim>\<open>index\<close> before it recurses on \<^verbatim>\<open>index + 1\<close>), so no index beyond the length is
  ever written and no hole arises.
\<close>

definition arraySet :: "'a list \<Rightarrow> nat \<Rightarrow> 'a \<Rightarrow> 'a list" where
  "arraySet xs i v = (if i < length xs then xs[i := v] else xs @ [v])"

text \<open>
  The state threaded through \<^verbatim>\<open>backtrack\<close> is the pair of the shared array
  \<^verbatim>\<open>current\<close> (mutated in place, never restored) and the captured \<^verbatim>\<open>results\<close>.
  The last branch (\<^verbatim>\<open>index\<close> beyond the number of skills) is never entered from
  \<^verbatim>\<open>backtrack(0, [])\<close>.
\<close>

function backtrack ::
  "rat list list \<Rightarrow> nat \<Rightarrow> rat list \<times> rat list list \<Rightarrow> rat list \<times> rat list list" where
  "backtrack gearArrays index (current, results) =
     (if index = length gearArrays then (current, results @ [current])
      else if index < length gearArrays then
        fold (\<lambda>gearPercent (cur, res).
                backtrack gearArrays (index + 1) (arraySet cur index gearPercent, res))
             (gearArrays ! index) (current, results)
      else (current, results))"
  by pat_completeness auto
termination
  by (relation "measure (\<lambda>(gearArrays, index, st). length gearArrays - index)") auto

definition generateAllGearChoices :: "Skill list \<Rightarrow> rat list list" where
  "generateAllGearChoices skills = snd (backtrack (map possibleSkillGear skills) 0 ([], []))"

section \<open>ScheduleSearch, exhaustive strategy: \<^verbatim>\<open>findBestDamageSchedule\<close> with \<^verbatim>\<open>dfs\<close>\<close>

text \<open>
  \<^verbatim>\<open>skills.map((skill, i) => skill.recastTimeS * (1 - gearCombo[i] / 100))\<close>.
  The assignment has one percentage per skill; a shorter \<^verbatim>\<open>gearCombo\<close> would read
  \<^verbatim>\<open>undefined\<close> in the source, which is outside the model, so the theorems below
  assume \<open>length gearCombo = length skills\<close>.
\<close>

definition effectiveRecast :: "Skill list \<Rightarrow> rat list \<Rightarrow> rat list" where
  "effectiveRecast skills gearCombo =
     map (\<lambda>i. recastTimeS (skills ! i) * (1 - (gearCombo ! i) / 100)) [0..<length skills]"

text \<open>
  The variables \<^verbatim>\<open>dfs\<close> mutates: the captured best result, the shared availability
  buffer and the shared cast sequence (both passed by reference and undone on
  backtrack).
\<close>

record DfsVars =
  bestDamageSoFar :: rat
  bestSequenceSoFar :: "string list"
  nextAvailTimes :: "rat list"
  castSequence :: "string list"

text \<open>
  The recursion of \<^verbatim>\<open>dfs\<close> need not end (a skill with cast time and cooldown 0 can be
  cast forever), so the embedding carries a bound \<open>fuel\<close> on the recursion depth and
  returns \<open>None\<close> when the bound is hit. \<open>tol\<close> is the tolerance of the feasibility
  test: \<^verbatim>\<open>main.ts\<close> tests \<^verbatim>\<open>castEnd > timeLimit\<close> (\<open>tol = 0\<close>), \<^verbatim>\<open>main.cpp\<close> tests
  \<^verbatim>\<open>castEnd > timeLimit + EPS\<close>; the two functions are otherwise the same statement for
  statement.
\<close>

fun dfs ::
  "rat \<Rightarrow> Skill list \<Rightarrow> rat list \<Rightarrow> rat \<Rightarrow> nat \<Rightarrow> rat \<Rightarrow> rat \<Rightarrow> DfsVars \<Rightarrow> DfsVars option" where
  "dfs tol skills effRecast timeLimit 0 currentTime totalDamageSoFar v = None"
| "dfs tol skills effRecast timeLimit (Suc fuel) currentTime totalDamageSoFar v =
     fold (\<lambda>i r. case r of None \<Rightarrow> None | Some s \<Rightarrow>
            (let skill = skills ! i;
                 earliestStart = nextAvailTimes s ! i
             in if earliestStart > timeLimit then Some s
                else
                  let startTime = max currentTime earliestStart;
                      castEnd = startTime + castTimeS skill
                  in if castEnd > timeLimit + tol then Some s
                     else
                       let oldNextAvail = nextAvailTimes s ! i;
                           s1 = s\<lparr>nextAvailTimes := (nextAvailTimes s)[i := castEnd + effRecast ! i],
                                   castSequence := castSequence s @ [skillName skill]\<rparr>
                       in case dfs tol skills effRecast timeLimit fuel castEnd
                                 (totalDamageSoFar + damage skill) s1 of
                            None \<Rightarrow> None
                          | Some s2 \<Rightarrow>
                              Some (s2\<lparr>castSequence := butlast (castSequence s2),
                                        nextAvailTimes := (nextAvailTimes s2)[i := oldNextAvail]\<rparr>)))
          [0..<length skills]
          (Some (if totalDamageSoFar > bestDamageSoFar v
                 then v\<lparr>bestDamageSoFar := totalDamageSoFar, bestSequenceSoFar := castSequence v\<rparr>
                 else v))"

definition dfsSchedule :: "rat \<Rightarrow> nat \<Rightarrow> Skill list \<Rightarrow> rat list \<Rightarrow> rat \<Rightarrow> ScheduleResult option" where
  "dfsSchedule tol fuel skills gearCombo timeLimit =
     (case dfs tol skills (effectiveRecast skills gearCombo) timeLimit fuel 0 0
             \<lparr>bestDamageSoFar = 0, bestSequenceSoFar = [],
              nextAvailTimes = map (\<lambda>_. 0) skills, castSequence = []\<rparr> of
        None \<Rightarrow> None
      | Some v \<Rightarrow> Some \<lparr>totalDamage = bestDamageSoFar v, sequence = bestSequenceSoFar v\<rparr>)"

text \<open>\<^verbatim>\<open>findBestDamageSchedule\<close> of \<^verbatim>\<open>main.ts\<close>: no tolerance.\<close>

definition findBestDamageSchedule ::
  "nat \<Rightarrow> Skill list \<Rightarrow> rat list \<Rightarrow> rat \<Rightarrow> ScheduleResult option" where
  "findBestDamageSchedule = dfsSchedule 0"

text \<open>\<^verbatim>\<open>findBestDamageSchedule\<close> of \<^verbatim>\<open>main.cpp\<close>: \<^verbatim>\<open>EPS = 1e-9\<close> in the feasibility test.\<close>

definition EPS :: rat where
  "EPS = 1 / 1000000000"

definition findBestDamageSchedule_cpp ::
  "nat \<Rightarrow> Skill list \<Rightarrow> rat list \<Rightarrow> rat \<Rightarrow> ScheduleResult option" where
  "findBestDamageSchedule_cpp = dfsSchedule EPS"

section \<open>The depth-first search in double arithmetic\<close>

text \<open>
  The sources compute every time and every damage total in IEEE binary64: each sum,
  difference, product and quotient is the exact result rounded to the nearest double,
  ties to even. A finite double is the rational it denotes, so the arithmetic is the
  exact one followed by a rounding function \<open>rnd\<close> on the rationals; comparisons and
  \<^verbatim>\<open>Math.max\<close> are exact on doubles. \<open>roundDouble\<close> is that rounding for results in the
  range of the finite doubles (53 significant bits, least exponent \<open>-1022\<close>, subnormals
  spaced \<open>2 ^ - 1074\<close>); a result beyond the largest finite double is \<^verbatim>\<open>Infinity\<close> in
  the sources and is outside the model.
\<close>

function bitLength :: "int \<Rightarrow> int" where
  "bitLength n = (if n \<le> 0 then 0 else 1 + bitLength (n div 2))"
  by pat_completeness auto

termination bitLength
  by (relation "measure nat") auto

declare bitLength.simps [simp del]

definition pow2 :: "int \<Rightarrow> rat" where
  "pow2 k = (if 0 \<le> k then 2 ^ nat k else 1 / 2 ^ nat (- k))"

text \<open>\<open>\<lfloor>log\<^sub>2 a\<rfloor>\<close> of a positive rational \<open>a\<close>.\<close>

definition floorLog2 :: "rat \<Rightarrow> int" where
  "floorLog2 a =
     (let k = bitLength (fst (quotient_of a)) - bitLength (snd (quotient_of a))
      in if pow2 k \<le> a then k else k - 1)"

definition roundHalfEven :: "rat \<Rightarrow> int" where
  "roundHalfEven m =
     (let f = \<lfloor>m\<rfloor>; r = m - of_int f
      in if r < 1 / 2 then f
         else if 1 / 2 < r then f + 1
         else if even f then f else f + 1)"

definition roundDouble :: "rat \<Rightarrow> rat" where
  "roundDouble x =
     (if x = 0 then 0
      else let e = max (floorLog2 \<bar>x\<bar>) (- 1022);
               q = pow2 (e - 52)
           in sgn x * of_int (roundHalfEven (\<bar>x\<bar> / q)) * q)"

text \<open>
  \<^verbatim>\<open>skill.recastTimeS * (1 - gearCombo[i] / 100)\<close>: three operations, each rounded.
\<close>

definition effectiveRecastRounded :: "(rat \<Rightarrow> rat) \<Rightarrow> Skill list \<Rightarrow> rat list \<Rightarrow> rat list" where
  "effectiveRecastRounded rnd skills gearCombo =
     map (\<lambda>i. let pct = rnd ((gearCombo ! i) / 100)
              in rnd (recastTimeS (skills ! i) * rnd (1 - pct))) [0..<length skills]"

text \<open>
  \<^verbatim>\<open>dfs\<close> with the three additions of its loop body rounded:
  \<^verbatim>\<open>startTime + skill.castTimeS\<close>, \<^verbatim>\<open>castEnd + effectiveRecast[i]\<close> and
  \<^verbatim>\<open>totalDamageSoFar + skill.damage\<close>. \<open>bound\<close> is the right-hand side of the
  feasibility test: \<^verbatim>\<open>timeLimit\<close> in \<^verbatim>\<open>main.ts\<close>, the rounded sum \<^verbatim>\<open>timeLimit + EPS\<close> in
  \<^verbatim>\<open>main.cpp\<close>. With \<open>rnd = (\<lambda>x. x)\<close> and \<open>bound = timeLimit + tol\<close> it is the function
  \<open>dfs\<close> above.
\<close>

fun dfsRounded ::
  "(rat \<Rightarrow> rat) \<Rightarrow> Skill list \<Rightarrow> rat list \<Rightarrow> rat \<Rightarrow> rat \<Rightarrow> nat \<Rightarrow> rat \<Rightarrow> rat \<Rightarrow> DfsVars \<Rightarrow> DfsVars option" where
  "dfsRounded rnd skills effRecast timeLimit bound 0 currentTime totalDamageSoFar v = None"
| "dfsRounded rnd skills effRecast timeLimit bound (Suc fuel) currentTime totalDamageSoFar v =
     fold (\<lambda>i r. case r of None \<Rightarrow> None | Some s \<Rightarrow>
            (let skill = skills ! i;
                 earliestStart = nextAvailTimes s ! i
             in if earliestStart > timeLimit then Some s
                else
                  let startTime = max currentTime earliestStart;
                      castEnd = rnd (startTime + castTimeS skill)
                  in if castEnd > bound then Some s
                     else
                       let oldNextAvail = nextAvailTimes s ! i;
                           s1 = s\<lparr>nextAvailTimes := (nextAvailTimes s)[i := rnd (castEnd + effRecast ! i)],
                                   castSequence := castSequence s @ [skillName skill]\<rparr>
                       in case dfsRounded rnd skills effRecast timeLimit bound fuel castEnd
                                 (rnd (totalDamageSoFar + damage skill)) s1 of
                            None \<Rightarrow> None
                          | Some s2 \<Rightarrow>
                              Some (s2\<lparr>castSequence := butlast (castSequence s2),
                                        nextAvailTimes := (nextAvailTimes s2)[i := oldNextAvail]\<rparr>)))
          [0..<length skills]
          (Some (if totalDamageSoFar > bestDamageSoFar v
                 then v\<lparr>bestDamageSoFar := totalDamageSoFar, bestSequenceSoFar := castSequence v\<rparr>
                 else v))"

definition dfsScheduleRounded ::
  "(rat \<Rightarrow> rat) \<Rightarrow> rat \<Rightarrow> nat \<Rightarrow> Skill list \<Rightarrow> rat list \<Rightarrow> rat \<Rightarrow> ScheduleResult option" where
  "dfsScheduleRounded rnd bound fuel skills gearCombo timeLimit =
     (case dfsRounded rnd skills (effectiveRecastRounded rnd skills gearCombo) timeLimit bound fuel 0 0
             \<lparr>bestDamageSoFar = 0, bestSequenceSoFar = [],
              nextAvailTimes = map (\<lambda>_. 0) skills, castSequence = []\<rparr> of
        None \<Rightarrow> None
      | Some v \<Rightarrow> Some \<lparr>totalDamage = bestDamageSoFar v, sequence = bestSequenceSoFar v\<rparr>)"

text \<open>
  \<^verbatim>\<open>findBestDamageSchedule\<close> of \<^verbatim>\<open>main.ts\<close> and of \<^verbatim>\<open>main.cpp\<close> on doubles. The literal
  \<^verbatim>\<open>1e-9\<close> of \<^verbatim>\<open>main.cpp\<close> is the double nearest to \<open>1 / 10 ^ 9\<close>.
\<close>

definition findBestDamageSchedule_double ::
  "nat \<Rightarrow> Skill list \<Rightarrow> rat list \<Rightarrow> rat \<Rightarrow> ScheduleResult option" where
  "findBestDamageSchedule_double fuel skills gearCombo timeLimit =
     dfsScheduleRounded roundDouble timeLimit fuel skills gearCombo timeLimit"

definition findBestDamageSchedule_cpp_double ::
  "nat \<Rightarrow> Skill list \<Rightarrow> rat list \<Rightarrow> rat \<Rightarrow> ScheduleResult option" where
  "findBestDamageSchedule_cpp_double fuel skills gearCombo timeLimit =
     dfsScheduleRounded roundDouble (roundDouble (timeLimit + roundDouble EPS)) fuel skills gearCombo timeLimit"

section \<open>ScheduleSearch, bounded-frontier strategy: the breadth-first \<^verbatim>\<open>findBestDamageSchedule\<close>\<close>

record State =
  currentTime :: rat
  damageSoFar :: rat
  nextAvail :: "rat list"
  castSequence :: "string list"

text \<open>
  Modelled from the spec: \<^verbatim>\<open>MinPriorityQueue\<close>, of the external package
  \<^verbatim>\<open>@datastructures-js/priority-queue\<close>, whose code is not in the repository. The
  per-checkpoint retention set is ranked by \<^verbatim>\<open>damageSoFar\<close> and its front is the
  minimum-damage entry: a list kept sorted by \<^verbatim>\<open>damageSoFar\<close>, where \<^verbatim>\<open>enqueue\<close>
  inserts in order, \<^verbatim>\<open>front\<close> is the head, \<^verbatim>\<open>dequeue\<close> drops the head and \<^verbatim>\<open>size\<close>
  is the length. Likewise \<^verbatim>\<open>Queue\<close>, of the external package
  \<^verbatim>\<open>@datastructures-js/queue\<close>, is first-in-first-out: a list, enqueued at the end
  and dequeued at the head.
\<close>

definition heapEnqueue :: "State \<Rightarrow> State list \<Rightarrow> State list" where
  "heapEnqueue st heap = insort_key damageSoFar st heap"

definition heapFront :: "State list \<Rightarrow> State option" where
  "heapFront heap = (case heap of [] \<Rightarrow> None | worst # _ \<Rightarrow> Some worst)"

definition heapDequeue :: "State list \<Rightarrow> State list" where
  "heapDequeue heap = tl heap"

text \<open>
  The variables of the loop. \<open>discarded\<close> is a ghost counter that the source does not
  have: it counts the successors generated while their checkpoint's heap was full,
  each of which is either pruned or evicts the heap's minimum. Nothing reads it.
\<close>

record BfsVars =
  queue :: "State list"
  topStatesPerCheckpoint :: "rat \<Rightarrow> State list option"
  bestDamage :: rat
  bestSequence :: "string list"
  expansions :: nat
  discarded :: nat

text \<open>
  One iteration of the inner \<^verbatim>\<open>for\<close> loop: the successor of \<open>state\<close> by skill \<open>i\<close>.
  \<open>K\<close> is the retention capacity, the literal \<^verbatim>\<open>10000\<close> in the source; the checkpoint
  width is the source's literal \<^verbatim>\<open>5\<close>.
\<close>

definition expandSkill ::
  "nat \<Rightarrow> Skill list \<Rightarrow> rat list \<Rightarrow> rat \<Rightarrow> State \<Rightarrow> nat \<Rightarrow> BfsVars \<Rightarrow> BfsVars" where
  "expandSkill K skills effRecast timeLimit state i v =
     (let skill = skills ! i;
          earliestStart = nextAvail state ! i
      in if earliestStart > timeLimit then v
         else
           let startTime = max (currentTime state) earliestStart;
               castEnd = startTime + castTimeS skill
           in if castEnd > timeLimit then v
              else
                let newDamage = damageSoFar state + damage skill;
                    newNextAvail = (nextAvail state)[i := castEnd + effRecast ! i];
                    newSequence = State.castSequence state @ [skillName skill];
                    newState = \<lparr>currentTime = castEnd, damageSoFar = newDamage,
                                nextAvail = newNextAvail, castSequence = newSequence\<rparr>;
                    checkpoint = of_int (\<lfloor>castEnd / 5\<rfloor>) * 5;
                    heap = (case topStatesPerCheckpoint v checkpoint of None \<Rightarrow> [] | Some h \<Rightarrow> h)
                in if length heap < K
                   then v\<lparr>topStatesPerCheckpoint :=
                            (topStatesPerCheckpoint v)(checkpoint \<mapsto> heapEnqueue newState heap),
                          queue := queue v @ [newState]\<rparr>
                   else
                     (case heapFront heap of
                        None \<Rightarrow>
                          v\<lparr>topStatesPerCheckpoint := (topStatesPerCheckpoint v)(checkpoint \<mapsto> heap),
                            discarded := discarded v + 1\<rparr>
                      | Some worstTopState \<Rightarrow>
                          if newDamage > damageSoFar worstTopState
                          then v\<lparr>topStatesPerCheckpoint :=
                                   (topStatesPerCheckpoint v)
                                     (checkpoint \<mapsto> heapEnqueue newState (heapDequeue heap)),
                                 queue := queue v @ [newState],
                                 discarded := discarded v + 1\<rparr>
                          else v\<lparr>topStatesPerCheckpoint := (topStatesPerCheckpoint v)(checkpoint \<mapsto> heap),
                                 discarded := discarded v + 1\<rparr>))"

text \<open>
  One iteration of the \<^verbatim>\<open>while\<close> loop on the dequeued \<open>state\<close>: count the expansion,
  update the best, expand every skill.
\<close>

definition expandState ::
  "nat \<Rightarrow> Skill list \<Rightarrow> rat list \<Rightarrow> rat \<Rightarrow> State \<Rightarrow> BfsVars \<Rightarrow> BfsVars" where
  "expandState K skills effRecast timeLimit state v =
     fold (expandSkill K skills effRecast timeLimit state) [0..<length skills]
       (let v1 = v\<lparr>expansions := expansions v + 1\<rparr>
        in if damageSoFar state > bestDamage v1
           then v1\<lparr>bestDamage := damageSoFar state, bestSequence := State.castSequence state\<rparr>
           else v1)"

text \<open>
  The \<^verbatim>\<open>while (!queue.isEmpty())\<close> loop, with a bound \<open>fuel\<close> on the number of
  iterations: \<open>None\<close> when the queue is not empty after \<open>fuel\<close> iterations.
\<close>

fun bfsLoop ::
  "nat \<Rightarrow> Skill list \<Rightarrow> rat list \<Rightarrow> rat \<Rightarrow> nat \<Rightarrow> BfsVars \<Rightarrow> BfsVars option" where
  "bfsLoop K skills effRecast timeLimit 0 v = (if queue v = [] then Some v else None)"
| "bfsLoop K skills effRecast timeLimit (Suc fuel) v =
     (case queue v of
        [] \<Rightarrow> Some v
      | state # rest \<Rightarrow>
          bfsLoop K skills effRecast timeLimit fuel
            (expandState K skills effRecast timeLimit state (v\<lparr>queue := rest\<rparr>)))"

definition bfsRun :: "nat \<Rightarrow> nat \<Rightarrow> Skill list \<Rightarrow> rat list \<Rightarrow> rat \<Rightarrow> BfsVars option" where
  "bfsRun K fuel skills gearCombo timeLimit =
     bfsLoop K skills (effectiveRecast skills gearCombo) timeLimit fuel
       \<lparr>queue = [\<lparr>currentTime = 0, damageSoFar = 0,
                  nextAvail = map (\<lambda>_. 0) skills, castSequence = []\<rparr>],
        topStatesPerCheckpoint = Map.empty,
        bestDamage = 0, bestSequence = [], expansions = 0, discarded = 0\<rparr>"

definition bfsSchedule :: "nat \<Rightarrow> nat \<Rightarrow> Skill list \<Rightarrow> rat list \<Rightarrow> rat \<Rightarrow> ScheduleResult option" where
  "bfsSchedule K fuel skills gearCombo timeLimit =
     (case bfsRun K fuel skills gearCombo timeLimit of
        None \<Rightarrow> None
      | Some v \<Rightarrow> Some \<lparr>totalDamage = bestDamage v, sequence = bestSequence v\<rparr>)"

text \<open>The breadth-first \<^verbatim>\<open>findBestDamageSchedule\<close> as the source has it: capacity 10000.\<close>

definition findBestDamageSchedule_bfs ::
  "nat \<Rightarrow> Skill list \<Rightarrow> rat list \<Rightarrow> rat \<Rightarrow> ScheduleResult option" where
  "findBestDamageSchedule_bfs = bfsSchedule 10000"

section \<open>SetupOptimizer: \<^verbatim>\<open>findBestDpsSetup\<close>\<close>

record DpsResult =
  bestDamage :: rat
  bestDps :: number
  chosenGearPercents :: "rat list"
  castSequence :: "string list"

record SetupVars =
  topDamage :: rat
  topSequence :: "string list"
  bestGear :: "rat list"
  bestGearCost :: number

text \<open>
  The body of the loop over the gear combinations, for one combination and the result
  of its search. \<^verbatim>\<open>gearCombo.reduce((a, b) => a + b, 0)\<close> is a left fold.
\<close>

definition considerCombo :: "SetupVars \<Rightarrow> rat list \<Rightarrow> ScheduleResult \<Rightarrow> SetupVars" where
  "considerCombo v gearCombo r =
     (if totalDamage r > topDamage v
      then v\<lparr>topDamage := totalDamage r, topSequence := sequence r, bestGear := gearCombo,
             bestGearCost := Num (foldl (+) 0 gearCombo)\<rparr>
      else if totalDamage r = topDamage v
      then (let thisCost = foldl (+) 0 gearCombo
            in if numLess thisCost (bestGearCost v)
               then v\<lparr>bestGear := gearCombo, bestGearCost := Num thisCost, topSequence := sequence r\<rparr>
               else v)
      else v)"

text \<open>
  \<^verbatim>\<open>findBestDpsSetup\<close> is the same text in \<^verbatim>\<open>main.ts\<close> and in the breadth-first file, up to
  the \<^verbatim>\<open>findBestDamageSchedule\<close> it calls and the logging; \<open>search\<close> is that function.
  A search that runs out of fuel makes the whole run \<open>None\<close>. The source has no
  \<^verbatim>\<open>throw\<close> and no validation of its input, so the model has no error value.
\<close>

definition setupLoop ::
  "(Skill list \<Rightarrow> rat list \<Rightarrow> rat \<Rightarrow> ScheduleResult option) \<Rightarrow> Skill list \<Rightarrow> rat \<Rightarrow>
   rat list list \<Rightarrow> SetupVars \<Rightarrow> SetupVars option" where
  "setupLoop search skills timeLimit allGearCombos v0 =
     fold (\<lambda>gearCombo r. case r of None \<Rightarrow> None | Some v \<Rightarrow>
             (case search skills gearCombo timeLimit of
                None \<Rightarrow> None
              | Some res \<Rightarrow> Some (considerCombo v gearCombo res)))
          allGearCombos (Some v0)"

definition findBestDpsSetupWith ::
  "(Skill list \<Rightarrow> rat list \<Rightarrow> rat \<Rightarrow> ScheduleResult option) \<Rightarrow> Skill list \<Rightarrow> rat \<Rightarrow> DpsResult option" where
  "findBestDpsSetupWith search skills timeLimit =
     (case setupLoop search skills timeLimit (generateAllGearChoices skills)
             \<lparr>topDamage = 0, topSequence = [], bestGear = [], bestGearCost = Infinity\<rparr> of
        None \<Rightarrow> None
      | Some v \<Rightarrow>
          Some \<lparr>bestDamage = topDamage v, bestDps = numDivide (topDamage v) timeLimit,
                chosenGearPercents = bestGear v, castSequence = topSequence v\<rparr>)"

text \<open>\<^verbatim>\<open>findBestDpsSetup\<close> of \<^verbatim>\<open>main.ts\<close>, on the depth-first search.\<close>

definition findBestDpsSetup :: "nat \<Rightarrow> Skill list \<Rightarrow> rat \<Rightarrow> DpsResult option" where
  "findBestDpsSetup fuel = findBestDpsSetupWith (findBestDamageSchedule fuel)"

text \<open>\<^verbatim>\<open>findBestDpsSetup\<close> of the breadth-first file.\<close>

definition findBestDpsSetup_bfs :: "nat \<Rightarrow> Skill list \<Rightarrow> rat \<Rightarrow> DpsResult option" where
  "findBestDpsSetup_bfs fuel = findBestDpsSetupWith (findBestDamageSchedule_bfs fuel)"

text \<open>
  \<^verbatim>\<open>findBestDpsSetup\<close> of \<^verbatim>\<open>main.cpp\<close>: the same loop on the search of \<^verbatim>\<open>main.cpp\<close>,
  except that a tie is a damage within \<open>EPS\<close> of the best one
  (\<^verbatim>\<open>fabs(comboDamage - topDamage) < EPS\<close>).
\<close>

definition considerCombo_cpp :: "SetupVars \<Rightarrow> rat list \<Rightarrow> ScheduleResult \<Rightarrow> SetupVars" where
  "considerCombo_cpp v gearCombo sr =
     (let comboDamage = totalDamage sr;
          comboCost = foldl (+) 0 gearCombo
      in if comboDamage > topDamage v
         then v\<lparr>topDamage := comboDamage, topSequence := sequence sr, bestGear := gearCombo,
                bestGearCost := Num comboCost\<rparr>
         else if \<bar>comboDamage - topDamage v\<bar> < EPS
         then (if numLess comboCost (bestGearCost v)
               then v\<lparr>bestGear := gearCombo, bestGearCost := Num comboCost, topSequence := sequence sr\<rparr>
               else v)
         else v)"

definition findBestDpsSetup_cpp :: "nat \<Rightarrow> Skill list \<Rightarrow> rat \<Rightarrow> DpsResult option" where
  "findBestDpsSetup_cpp fuel skills timeLimit =
     (case fold (\<lambda>gearCombo r. case r of None \<Rightarrow> None | Some v \<Rightarrow>
                  (case findBestDamageSchedule_cpp fuel skills gearCombo timeLimit of
                     None \<Rightarrow> None
                   | Some sr \<Rightarrow> Some (considerCombo_cpp v gearCombo sr)))
               (generateAllGearChoices skills)
               (Some \<lparr>topDamage = 0, topSequence = [], bestGear = [], bestGearCost = Infinity\<rparr>) of
        None \<Rightarrow> None
      | Some v \<Rightarrow>
          Some \<lparr>bestDamage = topDamage v, bestDps = numDivide (topDamage v) timeLimit,
                chosenGearPercents = bestGear v, castSequence = topSequence v\<rparr>)"

section \<open>Cast sequences\<close>

text \<open>
  A cast sequence is the list of the indices of the skills cast, in order. Its names are
  what the searches return as \<^verbatim>\<open>sequence\<close>, its damage the sum of the damage of its
  casts.
\<close>

definition castNames :: "Skill list \<Rightarrow> nat list \<Rightarrow> string list" where
  "castNames skills is = map (\<lambda>i. skillName (skills ! i)) is"

definition castDamage :: "Skill list \<Rightarrow> nat list \<Rightarrow> rat" where
  "castDamage skills is = sum_list (map (\<lambda>i. damage (skills ! i)) is)"

text \<open>
  The end of a cast of skill \<open>i\<close> at time \<open>cur\<close> with availability \<open>na\<close>:
  \<^verbatim>\<open>startTime = max(currentTime, nextAvailableTime[i])\<close>,
  \<^verbatim>\<open>castEnd = startTime + castDuration_i\<close>.
\<close>

definition castEndOf :: "Skill list \<Rightarrow> rat \<Rightarrow> rat list \<Rightarrow> nat \<Rightarrow> rat" where
  "castEndOf skills cur na i = max cur (na ! i) + castTimeS (skills ! i)"

text \<open>
  Legal cast sequences in the words of the specification: every cast starts at
  \<open>max cur (na ! i)\<close>, ends by \<open>timeLimit\<close> (within the tolerance \<open>tol\<close>), and leaves
  skill \<open>i\<close> next available at \<open>castEnd + effectiveCooldown_i\<close>.
\<close>

fun legalCasts :: "rat \<Rightarrow> Skill list \<Rightarrow> rat list \<Rightarrow> rat \<Rightarrow> rat \<Rightarrow> rat list \<Rightarrow> nat list \<Rightarrow> bool" where
  "legalCasts tol skills effRecast timeLimit cur na [] = True"
| "legalCasts tol skills effRecast timeLimit cur na (i # is) =
     (i < length skills \<and> castEndOf skills cur na i \<le> timeLimit + tol \<and>
      legalCasts tol skills effRecast timeLimit (castEndOf skills cur na i)
        (na[i := castEndOf skills cur na i + effRecast ! i]) is)"

text \<open>
  The two tests the loops of the source make before a cast (the availability test
  \<^verbatim>\<open>earliestStart > timeLimit\<close>, which has no tolerance in any variant, and the
  feasibility test on \<^verbatim>\<open>castEnd\<close>), and the cast sequences that pass them at every
  cast.
\<close>

definition castable :: "rat \<Rightarrow> Skill list \<Rightarrow> rat \<Rightarrow> rat \<Rightarrow> rat list \<Rightarrow> nat \<Rightarrow> bool" where
  "castable tol skills timeLimit cur na i =
     (\<not> na ! i > timeLimit \<and> \<not> castEndOf skills cur na i > timeLimit + tol)"

fun feasibleCasts :: "rat \<Rightarrow> Skill list \<Rightarrow> rat list \<Rightarrow> rat \<Rightarrow> rat \<Rightarrow> rat list \<Rightarrow> nat list \<Rightarrow> bool" where
  "feasibleCasts tol skills effRecast timeLimit cur na [] = True"
| "feasibleCasts tol skills effRecast timeLimit cur na (i # is) =
     (i < length skills \<and> castable tol skills timeLimit cur na i \<and>
      feasibleCasts tol skills effRecast timeLimit (castEndOf skills cur na i)
        (na[i := castEndOf skills cur na i + effRecast ! i]) is)"



text \<open>
  The timeline of a cast sequence: for each cast its start, its end and the time at
  which the skill is next available.
\<close>

fun castTimeline :: "Skill list \<Rightarrow> rat list \<Rightarrow> rat \<Rightarrow> rat list \<Rightarrow> nat list \<Rightarrow> (rat \<times> rat \<times> rat) list" where
  "castTimeline skills effRecast cur na [] = []"
| "castTimeline skills effRecast cur na (i # is) =
     (max cur (na ! i), castEndOf skills cur na i, castEndOf skills cur na i + effRecast ! i)
       # castTimeline skills effRecast (castEndOf skills cur na i)
           (na[i := castEndOf skills cur na i + effRecast ! i]) is"




definition feasibleFrom :: "Skill list \<Rightarrow> rat list \<Rightarrow> rat \<Rightarrow> State \<Rightarrow> nat list \<Rightarrow> bool" where
  "feasibleFrom skills effRecast timeLimit st is =
     feasibleCasts 0 skills effRecast timeLimit (currentTime st) (nextAvail st) is"

text \<open>The cost of a gear combination, as the optimizer sums it.\<close>

definition gearCost :: "rat list \<Rightarrow> rat" where
  "gearCost gearCombo = foldl (+) 0 gearCombo"

section \<open>Scenarios\<close>

text \<open>
  Scenario A of the specification (one action, cast 1, cooldown 5, damage 10, modifier
  0), the first two skills of the demo roster of \<^verbatim>\<open>main.ts\<close>, and a skill that the
  data model permits with cast duration and cooldown 0.
\<close>

definition scenarioA :: Skill where
  "scenarioA = \<lparr>skillName = ''Action'', castTimeS = 1, recastTimeS = 5, damage = 10,
                 possibleSkillGear = [0]\<rparr>"

definition fireball :: Skill where
  "fireball = \<lparr>skillName = ''Fireball'', castTimeS = 1, recastTimeS = 67 / 10, damage = 10300,
                possibleSkillGear = [0, 15]\<rparr>"

definition fireStorm :: Skill where
  "fireStorm = \<lparr>skillName = ''Fire Storm'', castTimeS = 3, recastTimeS = 15, damage = 11100,
                 possibleSkillGear = [0, 30]\<rparr>"

definition instantSkill :: Skill where
  "instantSkill = \<lparr>skillName = ''Instant'', castTimeS = 0, recastTimeS = 0, damage = 1,
                    possibleSkillGear = [0]\<rparr>"

text \<open>
  Rosters that the validation of the specification would refuse: a negative damage, an
  empty set of modifier options, a modifier of 150 percent.
\<close>

definition negativeDamageSkill :: Skill where
  "negativeDamageSkill = \<lparr>skillName = ''Action'', castTimeS = 1, recastTimeS = 5, damage = - 10,
                 possibleSkillGear = [0]\<rparr>"

definition noGearSkill :: Skill where
  "noGearSkill = \<lparr>skillName = ''Action'', castTimeS = 1, recastTimeS = 5, damage = 10,
                 possibleSkillGear = []\<rparr>"

definition overGearSkill :: Skill where
  "overGearSkill = \<lparr>skillName = ''Action'', castTimeS = 1, recastTimeS = 5, damage = 10,
                 possibleSkillGear = [150]\<rparr>"

text \<open>
  Two skills at the edge of the time limit 1: the first cast of \<open>edgeSkill\<close> ends
  half a tolerance after it; the first cast of \<open>quickSkill\<close> makes it next available a
  quarter of a tolerance after it, and its second cast would end half a tolerance
  after it.
\<close>

definition edgeSkill :: Skill where
  "edgeSkill = \<lparr>skillName = ''Edge'', castTimeS = 1 + 1 / 2000000000, recastTimeS = 5, damage = 10,
                 possibleSkillGear = [0]\<rparr>"

definition quickSkill :: Skill where
  "quickSkill = \<lparr>skillName = ''Quick'', castTimeS = 1 / 4000000000, recastTimeS = 1, damage = 10,
                 possibleSkillGear = [0]\<rparr>"

text \<open>
  The validation failures in the words of the specification: a negative cast
  duration, cooldown or damage, an empty set of modifier options, a modifier
  percentage of 100 or more, a time limit that is not positive.
\<close>

definition validationFailure :: "Skill list \<Rightarrow> rat \<Rightarrow> bool" where
  "validationFailure skills timeLimit =
     ((\<exists>s\<in>set skills. castTimeS s < 0 \<or> recastTimeS s < 0 \<or> damage s < 0
           \<or> possibleSkillGear s = [] \<or> (\<exists>p\<in>set (possibleSkillGear s). 100 \<le> p))
      \<or> timeLimit \<le> 0)"

section \<open>Pre- and postconditions used in the proofs\<close>

text \<open>
  The body of the \<^verbatim>\<open>for\<close> loop of \<^verbatim>\<open>dfs\<close> with the recursive call as a parameter, the
  loop over a list of skill indices, and the update of the best result on entry.
\<close>

definition recordBest :: "rat \<Rightarrow> DfsVars \<Rightarrow> DfsVars" where
  "recordBest totalDamageSoFar v =
     (if totalDamageSoFar > bestDamageSoFar v
      then v\<lparr>bestDamageSoFar := totalDamageSoFar, bestSequenceSoFar := DfsVars.castSequence v\<rparr>
      else v)"

definition dfsTry ::
  "rat \<Rightarrow> Skill list \<Rightarrow> rat list \<Rightarrow> rat \<Rightarrow> (rat \<Rightarrow> rat \<Rightarrow> DfsVars \<Rightarrow> DfsVars option) \<Rightarrow>
   rat \<Rightarrow> rat \<Rightarrow> nat \<Rightarrow> DfsVars \<Rightarrow> DfsVars option" where
  "dfsTry tol skills effRecast timeLimit rec cur tot i s =
     (if castable tol skills timeLimit cur (nextAvailTimes s) i
      then (case rec (castEndOf skills cur (nextAvailTimes s) i) (tot + damage (skills ! i))
                  (s\<lparr>nextAvailTimes := (nextAvailTimes s)
                         [i := castEndOf skills cur (nextAvailTimes s) i + effRecast ! i],
                     DfsVars.castSequence := DfsVars.castSequence s @ [skillName (skills ! i)]\<rparr>) of
              None \<Rightarrow> None
            | Some s2 \<Rightarrow> Some (s2\<lparr>DfsVars.castSequence := butlast (DfsVars.castSequence s2),
                                  nextAvailTimes := (nextAvailTimes s2)[i := nextAvailTimes s ! i]\<rparr>))
      else Some s)"

definition dfsLoop ::
  "rat \<Rightarrow> Skill list \<Rightarrow> rat list \<Rightarrow> rat \<Rightarrow> (rat \<Rightarrow> rat \<Rightarrow> DfsVars \<Rightarrow> DfsVars option) \<Rightarrow>
   rat \<Rightarrow> rat \<Rightarrow> nat list \<Rightarrow> DfsVars option \<Rightarrow> DfsVars option" where
  "dfsLoop tol skills effRecast timeLimit rec cur tot js r0 =
     fold (\<lambda>i r. case r of None \<Rightarrow> None | Some s \<Rightarrow> dfsTry tol skills effRecast timeLimit rec cur tot i s) js r0"

text \<open>
  The postcondition of the \<^verbatim>\<open>for\<close> loop over the skills \<open>J\<close>, and of a whole call of
  \<^verbatim>\<open>dfs\<close>: the buffers are restored, the best damage did not decrease, it is either
  the old one or the damage of a feasible continuation, and it is at least the
  damage of every feasible continuation.
\<close>

definition loopPost ::
  "rat \<Rightarrow> Skill list \<Rightarrow> rat list \<Rightarrow> rat \<Rightarrow> rat \<Rightarrow> rat \<Rightarrow> nat set \<Rightarrow> DfsVars \<Rightarrow> DfsVars \<Rightarrow> bool" where
  "loopPost tol skills eff tlim cur tot J v v' =
     (nextAvailTimes v' = nextAvailTimes v \<and> DfsVars.castSequence v' = DfsVars.castSequence v
      \<and> bestDamageSoFar v \<le> bestDamageSoFar v'
      \<and> ((bestDamageSoFar v' = bestDamageSoFar v \<and> bestSequenceSoFar v' = bestSequenceSoFar v)
          \<or> (\<exists>i is. i \<in> J \<and> feasibleCasts tol skills eff tlim cur (nextAvailTimes v) (i # is)
                \<and> bestDamageSoFar v' = tot + castDamage skills (i # is)
                \<and> bestSequenceSoFar v' = DfsVars.castSequence v @ castNames skills (i # is)))
      \<and> (\<forall>i is. i \<in> J \<longrightarrow> feasibleCasts tol skills eff tlim cur (nextAvailTimes v) (i # is)
                \<longrightarrow> tot + castDamage skills (i # is) \<le> bestDamageSoFar v'))"

definition dfsPost ::
  "rat \<Rightarrow> Skill list \<Rightarrow> rat list \<Rightarrow> rat \<Rightarrow> rat \<Rightarrow> rat \<Rightarrow> DfsVars \<Rightarrow> DfsVars \<Rightarrow> bool" where
  "dfsPost tol skills eff tlim cur tot v v' =
     (nextAvailTimes v' = nextAvailTimes v \<and> DfsVars.castSequence v' = DfsVars.castSequence v
      \<and> bestDamageSoFar v \<le> bestDamageSoFar v'
      \<and> ((bestDamageSoFar v' = bestDamageSoFar v \<and> bestSequenceSoFar v' = bestSequenceSoFar v)
          \<or> (\<exists>is. feasibleCasts tol skills eff tlim cur (nextAvailTimes v) is
                \<and> bestDamageSoFar v' = tot + castDamage skills is
                \<and> bestSequenceSoFar v' = DfsVars.castSequence v @ castNames skills is))
      \<and> (\<forall>is. feasibleCasts tol skills eff tlim cur (nextAvailTimes v) is
                \<longrightarrow> tot + castDamage skills is \<le> bestDamageSoFar v'))"







text \<open>
  What the loop of the optimizer has established after the combinations \<open>done\<close>, whose
  search results are \<open>res\<close>.
\<close>

definition setupInv :: "(rat list \<Rightarrow> ScheduleResult) \<Rightarrow> rat list list \<Rightarrow> SetupVars \<Rightarrow> bool" where
  "setupInv res done v =
     ((\<forall>g\<in>set done. totalDamage (res g) \<le> topDamage v)
      \<and> ((done = [] \<and> topDamage v = 0 \<and> topSequence v = [] \<and> bestGear v = [] \<and> bestGearCost v = Infinity)
         \<or> (\<exists>pre post. done = pre @ bestGear v # post
               \<and> topDamage v = totalDamage (res (bestGear v))
               \<and> topSequence v = sequence (res (bestGear v))
               \<and> bestGearCost v = Num (gearCost (bestGear v))
               \<and> (\<forall>g\<in>set pre. totalDamage (res g) = topDamage v \<longrightarrow> gearCost (bestGear v) < gearCost g)
               \<and> (\<forall>g\<in>set post. totalDamage (res g) = topDamage v \<longrightarrow> gearCost (bestGear v) \<le> gearCost g))))"





section \<open>Cast sequences and scenarios in double arithmetic\<close>

text \<open>
  The end of a cast, the two tests of the loop, the cast sequences that pass them at
  every cast and the damage total the search accumulates along a cast sequence, all in
  the arithmetic \<open>rnd\<close>.
\<close>

definition castEndR :: "(rat \<Rightarrow> rat) \<Rightarrow> Skill list \<Rightarrow> rat \<Rightarrow> rat list \<Rightarrow> nat \<Rightarrow> rat" where
  "castEndR rnd skills cur na i = rnd (max cur (na ! i) + castTimeS (skills ! i))"

definition castableR :: "(rat \<Rightarrow> rat) \<Rightarrow> Skill list \<Rightarrow> rat \<Rightarrow> rat \<Rightarrow> rat \<Rightarrow> rat list \<Rightarrow> nat \<Rightarrow> bool" where
  "castableR rnd skills timeLimit bound cur na i =
     (\<not> na ! i > timeLimit \<and> \<not> castEndR rnd skills cur na i > bound)"



text \<open>
  Three skills for the boundary cases of the double arithmetic: with a modifier of 70
  percent the cooldown of \<open>slowSkill\<close> is \<open>9\<close> exactly and \<open>9 + 2 ^ - 49\<close> in doubles; the
  cast duration \<open>2 ^ - 54\<close> of \<open>tinyCastSkill\<close> is positive and is absorbed when added
  to \<open>1\<close>.
\<close>

definition slowSkill :: Skill where
  "slowSkill = \<lparr>skillName = ''Slow'', castTimeS = 1, recastTimeS = 30, damage = 10,
                 possibleSkillGear = [70]\<rparr>"

definition unitCastSkill :: Skill where
  "unitCastSkill = \<lparr>skillName = ''A'', castTimeS = 1, recastTimeS = 0, damage = 1,
                 possibleSkillGear = [0]\<rparr>"

definition tinyCastSkill :: Skill where
  "tinyCastSkill = \<lparr>skillName = ''B'', castTimeS = 1 / 2 ^ 54, recastTimeS = 0, damage = 1,
                 possibleSkillGear = [0]\<rparr>"

text \<open>
  A skill whose two modifier options give damages \<open>2 ^ - 33\<close> (two casts, with 50
  percent) and \<open>2 ^ - 34\<close> (one cast, with 0 percent) within the time limit 8: the
  two damages differ by less than \<open>EPS\<close>. Every number involved is a double and every
  operation on them is exact.
\<close>

definition nearTieSkill :: Skill where
  "nearTieSkill = \<lparr>skillName = ''Spark'', castTimeS = 1, recastTimeS = 10, damage = 1 / 2 ^ 34,
                 possibleSkillGear = [50, 0]\<rparr>"

text \<open>
  The loop body, the loop and the postconditions of \<open>dfsRounded\<close>, as for \<open>dfs\<close>.
\<close>

definition dfsTryR ::
  "(rat \<Rightarrow> rat) \<Rightarrow> Skill list \<Rightarrow> rat list \<Rightarrow> rat \<Rightarrow> rat \<Rightarrow> (rat \<Rightarrow> rat \<Rightarrow> DfsVars \<Rightarrow> DfsVars option) \<Rightarrow>
   rat \<Rightarrow> rat \<Rightarrow> nat \<Rightarrow> DfsVars \<Rightarrow> DfsVars option" where
  "dfsTryR rnd skills effRecast timeLimit bound rec cur tot i s =
     (if castableR rnd skills timeLimit bound cur (nextAvailTimes s) i
      then (case rec (castEndR rnd skills cur (nextAvailTimes s) i) (rnd (tot + damage (skills ! i)))
                  (s\<lparr>nextAvailTimes := (nextAvailTimes s)
                         [i := rnd (castEndR rnd skills cur (nextAvailTimes s) i + effRecast ! i)],
                     DfsVars.castSequence := DfsVars.castSequence s @ [skillName (skills ! i)]\<rparr>) of
              None \<Rightarrow> None
            | Some s2 \<Rightarrow> Some (s2\<lparr>DfsVars.castSequence := butlast (DfsVars.castSequence s2),
                                  nextAvailTimes := (nextAvailTimes s2)[i := nextAvailTimes s ! i]\<rparr>))
      else Some s)"

definition dfsLoopR ::
  "(rat \<Rightarrow> rat) \<Rightarrow> Skill list \<Rightarrow> rat list \<Rightarrow> rat \<Rightarrow> rat \<Rightarrow> (rat \<Rightarrow> rat \<Rightarrow> DfsVars \<Rightarrow> DfsVars option) \<Rightarrow>
   rat \<Rightarrow> rat \<Rightarrow> nat list \<Rightarrow> DfsVars option \<Rightarrow> DfsVars option" where
  "dfsLoopR rnd skills effRecast timeLimit bound rec cur tot js r0 =
     fold (\<lambda>i r. case r of None \<Rightarrow> None | Some s \<Rightarrow> dfsTryR rnd skills effRecast timeLimit bound rec cur tot i s) js r0"



section \<open>The enumeration is the Cartesian product\<close>

lemma fold_backtrack_level:
  assumes IH: "\<And>cur res. index < length cur \<Longrightarrow> length cur \<le> length ga \<Longrightarrow>
            (\<exists>cur'. backtrack ga (Suc index) (cur, res) =
                (cur', res @ map (\<lambda>t. take (Suc index) cur @ t) (product_lists (drop (Suc index) ga)))
               \<and> length cur' \<le> length ga \<and> Suc index \<le> length cur' \<and> take (Suc index) cur' = take (Suc index) cur)"
    and "index \<le> length cur" "length cur \<le> length ga" "index < length ga"
  shows "\<exists>cur'. fold (\<lambda>gearPercent (cur, res).
                backtrack ga (index + 1) (arraySet cur index gearPercent, res)) gs (cur, res)
         = (cur', res @ concat (map (\<lambda>g. map (\<lambda>t. take index cur @ g # t) (product_lists (drop (Suc index) ga))) gs))
         \<and> length cur' \<le> length ga \<and> index \<le> length cur' \<and> take index cur' = take index cur"
  using assms(2,3)
proof (induction gs arbitrary: cur res)
  case Nil
  then show ?case by simp
next
  case (Cons g gs)
  let ?c1 = "arraySet cur index g"
  have l1: "index < length ?c1" "length ?c1 \<le> length ga"
    using Cons.prems assms(4) by (auto simp: arraySet_def)
  have t1: "take (Suc index) ?c1 = take index cur @ [g]"
    using Cons.prems by (auto simp: arraySet_def take_Suc_conv_app_nth)
  from IH[OF l1, of res] obtain c2 where
    c2: "backtrack ga (Suc index) (?c1, res) =
          (c2, res @ map (\<lambda>t. take (Suc index) ?c1 @ t) (product_lists (drop (Suc index) ga)))"
      "length c2 \<le> length ga" "Suc index \<le> length c2" "take (Suc index) c2 = take (Suc index) ?c1"
    by blast
  have t2: "take index c2 = take index cur"
  proof -
    have "take index c2 = take index (take (Suc index) c2)" by (simp add: min_def)
    also have "\<dots> = take index (take index cur @ [g])" using c2(4) t1 by simp
    also have "\<dots> = take index cur" using Cons.prems by simp
    finally show ?thesis .
  qed
  from Cons.IH[of c2 "res @ map (\<lambda>t. take (Suc index) ?c1 @ t) (product_lists (drop (Suc index) ga))"]
    c2(2,3)
  obtain c3 where c3: "fold (\<lambda>gearPercent (cur, res).
                backtrack ga (index + 1) (arraySet cur index gearPercent, res)) gs
             (c2, res @ map (\<lambda>t. take (Suc index) ?c1 @ t) (product_lists (drop (Suc index) ga)))
         = (c3, (res @ map (\<lambda>t. take (Suc index) ?c1 @ t) (product_lists (drop (Suc index) ga)))
                @ concat (map (\<lambda>g. map (\<lambda>t. take index c2 @ g # t) (product_lists (drop (Suc index) ga))) gs))"
      "length c3 \<le> length ga" "index \<le> length c3" "take index c3 = take index c2"
    by auto
  show ?case
    using c2(1) c3 t1 t2 by simp
qed

lemma backtrack_product:
  "index \<le> length cur \<Longrightarrow> length cur \<le> length ga \<Longrightarrow>
   \<exists>cur'. backtrack ga index (cur, res) =
      (cur', res @ map (\<lambda>t. take index cur @ t) (product_lists (drop index ga)))
    \<and> length cur' \<le> length ga \<and> index \<le> length cur' \<and> take index cur' = take index cur"
proof (induction k \<equiv> "length ga - index" arbitrary: index cur res)
  case 0
  then have "index = length ga" "length cur = length ga" by auto
  then show ?case by simp
next
  case (Suc k)
  then have lt: "index < length ga" by simp
  have IH: "\<And>cur res. index < length cur \<Longrightarrow> length cur \<le> length ga \<Longrightarrow>
            (\<exists>cur'. backtrack ga (Suc index) (cur, res) =
                (cur', res @ map (\<lambda>t. take (Suc index) cur @ t) (product_lists (drop (Suc index) ga)))
               \<and> length cur' \<le> length ga \<and> Suc index \<le> length cur' \<and> take (Suc index) cur' = take (Suc index) cur)"
    using Suc.hyps(1)[of "Suc index"] Suc.hyps(2) by auto
  have d: "drop index ga = (ga ! index) # drop (Suc index) ga"
    using lt by (simp add: Cons_nth_drop_Suc)
  from fold_backtrack_level[OF IH Suc.prems lt, of "ga ! index" res]
  show ?case using lt d by (simp add: map_concat comp_def)
qed

lemma generateAllGearChoices_product:
  "generateAllGearChoices skills = product_lists (map possibleSkillGear skills)"
  using backtrack_product[of 0 "[]" "map possibleSkillGear skills" "[]"]
  by (auto simp: generateAllGearChoices_def)


section \<open>The depth-first search: restoration, soundness, completeness\<close>

lemma dfs_Suc:
  "dfs tol skills effRecast timeLimit (Suc fuel) cur tot v =
     dfsLoop tol skills effRecast timeLimit (dfs tol skills effRecast timeLimit fuel) cur tot
       [0..<length skills] (Some (recordBest tot v))"
proof -
  have "(\<lambda>i r. case r of None \<Rightarrow> None | Some s \<Rightarrow>
            (let skill = skills ! i;
                 earliestStart = nextAvailTimes s ! i
             in if earliestStart > timeLimit then Some s
                else
                  let startTime = max cur earliestStart;
                      castEnd = startTime + castTimeS skill
                  in if castEnd > timeLimit + tol then Some s
                     else
                       let oldNextAvail = nextAvailTimes s ! i;
                           s1 = s\<lparr>nextAvailTimes := (nextAvailTimes s)[i := castEnd + effRecast ! i],
                                   DfsVars.castSequence := DfsVars.castSequence s @ [skillName skill]\<rparr>
                       in case dfs tol skills effRecast timeLimit fuel castEnd
                                 (tot + damage skill) s1 of
                            None \<Rightarrow> None
                          | Some s2 \<Rightarrow>
                              Some (s2\<lparr>DfsVars.castSequence := butlast (DfsVars.castSequence s2),
                                        nextAvailTimes := (nextAvailTimes s2)[i := oldNextAvail]\<rparr>)))
      = (\<lambda>i r. case r of None \<Rightarrow> None | Some s \<Rightarrow>
            dfsTry tol skills effRecast timeLimit (dfs tol skills effRecast timeLimit fuel) cur tot i s)"
    by (intro ext) (simp add: dfsTry_def castable_def castEndOf_def Let_def split: option.splits)
  then show ?thesis
    by (simp only: dfs.simps dfsLoop_def recordBest_def)
qed

lemma dfsLoop_Nil [simp]: "dfsLoop tol skills eff tlim rec cur tot [] r0 = r0"
  by (simp add: dfsLoop_def)

lemma dfsLoop_None [simp]: "dfsLoop tol skills eff tlim rec cur tot js None = None"
  by (induction js) (simp_all add: dfsLoop_def)

lemma dfsLoop_Cons [simp]:
  "dfsLoop tol skills eff tlim rec cur tot (j # js) (Some s) =
     dfsLoop tol skills eff tlim rec cur tot js (dfsTry tol skills eff tlim rec cur tot j s)"
  by (simp add: dfsLoop_def)

lemma loopPost_refl: "loopPost tol skills eff tlim cur tot {} v v"
  by (simp add: loopPost_def)

lemma loopPost_trans:
  assumes "loopPost tol skills eff tlim cur tot J1 v v1" "loopPost tol skills eff tlim cur tot J2 v1 v2"
  shows "loopPost tol skills eff tlim cur tot (J1 \<union> J2) v v2"
proof -
  from assms have na: "nextAvailTimes v1 = nextAvailTimes v" "nextAvailTimes v2 = nextAvailTimes v"
     and cs: "DfsVars.castSequence v1 = DfsVars.castSequence v" "DfsVars.castSequence v2 = DfsVars.castSequence v"
     and le: "bestDamageSoFar v \<le> bestDamageSoFar v1" "bestDamageSoFar v1 \<le> bestDamageSoFar v2"
    by (simp_all add: loopPost_def)
  let ?got = "\<lambda>J w. \<exists>i is. i \<in> J \<and> feasibleCasts tol skills eff tlim cur (nextAvailTimes v) (i # is)
                \<and> bestDamageSoFar w = tot + castDamage skills (i # is)
                \<and> bestSequenceSoFar w = DfsVars.castSequence v @ castNames skills (i # is)"
  from assms(1) have s1: "(bestDamageSoFar v1 = bestDamageSoFar v \<and> bestSequenceSoFar v1 = bestSequenceSoFar v)
          \<or> ?got J1 v1"
    by (simp add: loopPost_def)
  from assms(2) have s2: "(bestDamageSoFar v2 = bestDamageSoFar v1 \<and> bestSequenceSoFar v2 = bestSequenceSoFar v1)
          \<or> ?got J2 v2"
    by (simp add: loopPost_def na cs)
  have snd: "(bestDamageSoFar v2 = bestDamageSoFar v \<and> bestSequenceSoFar v2 = bestSequenceSoFar v)
          \<or> ?got (J1 \<union> J2) v2"
  proof (cases "?got J2 v2")
    case True
    then obtain i "is" where "i \<in> J2" "feasibleCasts tol skills eff tlim cur (nextAvailTimes v) (i # is)"
        "bestDamageSoFar v2 = tot + castDamage skills (i # is)"
        "bestSequenceSoFar v2 = DfsVars.castSequence v @ castNames skills (i # is)"
      by blast
    then have "?got (J1 \<union> J2) v2" by blast
    then show ?thesis ..
  next
    case False
    with s2 have e: "bestDamageSoFar v2 = bestDamageSoFar v1" "bestSequenceSoFar v2 = bestSequenceSoFar v1"
      by blast+
    show ?thesis
    proof (cases "?got J1 v1")
      case True
      then obtain i "is" where "i \<in> J1" "feasibleCasts tol skills eff tlim cur (nextAvailTimes v) (i # is)"
        "bestDamageSoFar v1 = tot + castDamage skills (i # is)"
        "bestSequenceSoFar v1 = DfsVars.castSequence v @ castNames skills (i # is)"
        by blast
      then have "?got (J1 \<union> J2) v2" unfolding e by blast
      then show ?thesis ..
    next
      case False
      with s1 have "bestDamageSoFar v1 = bestDamageSoFar v \<and> bestSequenceSoFar v1 = bestSequenceSoFar v"
        by blast
      then show ?thesis by (simp add: e)
    qed
  qed
  from assms(1) have c1: "\<And>i is. i \<in> J1 \<Longrightarrow> feasibleCasts tol skills eff tlim cur (nextAvailTimes v) (i # is)
                \<Longrightarrow> tot + castDamage skills (i # is) \<le> bestDamageSoFar v1"
    by (simp add: loopPost_def)
  from assms(2) have c2: "\<And>i is. i \<in> J2 \<Longrightarrow> feasibleCasts tol skills eff tlim cur (nextAvailTimes v) (i # is)
                \<Longrightarrow> tot + castDamage skills (i # is) \<le> bestDamageSoFar v2"
    by (simp add: loopPost_def na)
  have cpl: "\<forall>i is. i \<in> J1 \<union> J2 \<longrightarrow> feasibleCasts tol skills eff tlim cur (nextAvailTimes v) (i # is)
                \<longrightarrow> tot + castDamage skills (i # is) \<le> bestDamageSoFar v2"
  proof (intro allI impI)
    fix i "is" assume i: "i \<in> J1 \<union> J2" and f: "feasibleCasts tol skills eff tlim cur (nextAvailTimes v) (i # is)"
    show "tot + castDamage skills (i # is) \<le> bestDamageSoFar v2"
    proof (cases "i \<in> J1")
      case True
      from c1[OF True f] le show ?thesis by simp
    next
      case False
      with i have "i \<in> J2" by simp
      from c2[OF this f] show ?thesis .
    qed
  qed
  show ?thesis
    unfolding loopPost_def using na cs le snd cpl by simp
qed

lemma dfsTry_post:
  assumes rec: "\<And>c t s s'. rec c t s = Some s' \<Longrightarrow> dfsPost tol skills eff tlim c t s s'"
    and step: "dfsTry tol skills eff tlim rec cur tot j v = Some v'"
    and j: "j < length skills"
  shows "loopPost tol skills eff tlim cur tot {j} v v'"
proof (cases "castable tol skills tlim cur (nextAvailTimes v) j")
  case False
  with step have "v' = v" by (simp add: dfsTry_def)
  with False show ?thesis by (simp add: loopPost_def)
next
  case True
  define ce where "ce = castEndOf skills cur (nextAvailTimes v) j"
  define s where "s = v\<lparr>nextAvailTimes := (nextAvailTimes v)[j := ce + eff ! j],
                     DfsVars.castSequence := DfsVars.castSequence v @ [skillName (skills ! j)]\<rparr>"
  from True step obtain s2 where s2: "rec ce (tot + damage (skills ! j)) s = Some s2"
    and v': "v' = s2\<lparr>DfsVars.castSequence := butlast (DfsVars.castSequence s2),
                       nextAvailTimes := (nextAvailTimes s2)[j := nextAvailTimes v ! j]\<rparr>"
    by (auto simp: dfsTry_def ce_def s_def split: option.splits)
  from rec[OF s2] have P: "dfsPost tol skills eff tlim ce (tot + damage (skills ! j)) s s2" .
  have na: "nextAvailTimes v' = nextAvailTimes v"
    using P by (simp add: v' dfsPost_def s_def)
  have cs: "DfsVars.castSequence v' = DfsVars.castSequence v"
    using P by (simp add: v' dfsPost_def s_def)
  have b: "bestDamageSoFar v' = bestDamageSoFar s2" "bestSequenceSoFar v' = bestSequenceSoFar s2"
          "bestDamageSoFar s = bestDamageSoFar v" "bestSequenceSoFar s = bestSequenceSoFar v"
          "nextAvailTimes s = (nextAvailTimes v)[j := ce + eff ! j]"
          "DfsVars.castSequence s = DfsVars.castSequence v @ [skillName (skills ! j)]"
    by (simp_all add: v' s_def)
  have feas: "feasibleCasts tol skills eff tlim cur (nextAvailTimes v) (j # is)
        = feasibleCasts tol skills eff tlim ce (nextAvailTimes s) is" for "is"
    using True j by (simp add: ce_def b)
  have dmg: "tot + castDamage skills (j # is) = tot + damage (skills ! j) + castDamage skills is" for "is"
    by (simp add: castDamage_def)
  have nms: "DfsVars.castSequence v @ castNames skills (j # is) = DfsVars.castSequence s @ castNames skills is" for "is"
    by (simp add: castNames_def b)
  from P have P3: "bestDamageSoFar v \<le> bestDamageSoFar v'" by (simp add: dfsPost_def b)
  from P have P4: "(bestDamageSoFar v' = bestDamageSoFar v \<and> bestSequenceSoFar v' = bestSequenceSoFar v)
          \<or> (\<exists>is. feasibleCasts tol skills eff tlim ce (nextAvailTimes s) is
                \<and> bestDamageSoFar v' = tot + damage (skills ! j) + castDamage skills is
                \<and> bestSequenceSoFar v' = DfsVars.castSequence s @ castNames skills is)"
    unfolding dfsPost_def b(1,2) b(3,4)[symmetric] by simp
  from P have P5: "\<And>is. feasibleCasts tol skills eff tlim ce (nextAvailTimes s) is
                \<Longrightarrow> tot + damage (skills ! j) + castDamage skills is \<le> bestDamageSoFar v'"
    unfolding dfsPost_def b(1,2) by simp
  have Q4: "(bestDamageSoFar v' = bestDamageSoFar v \<and> bestSequenceSoFar v' = bestSequenceSoFar v)
          \<or> (\<exists>i is. i \<in> {j} \<and> feasibleCasts tol skills eff tlim cur (nextAvailTimes v) (i # is)
                \<and> bestDamageSoFar v' = tot + castDamage skills (i # is)
                \<and> bestSequenceSoFar v' = DfsVars.castSequence v @ castNames skills (i # is))"
  proof (rule disjE[OF P4])
    assume "bestDamageSoFar v' = bestDamageSoFar v \<and> bestSequenceSoFar v' = bestSequenceSoFar v"
    then show ?thesis ..
  next
    assume "\<exists>is. feasibleCasts tol skills eff tlim ce (nextAvailTimes s) is
                \<and> bestDamageSoFar v' = tot + damage (skills ! j) + castDamage skills is
                \<and> bestSequenceSoFar v' = DfsVars.castSequence s @ castNames skills is"
    then obtain "is" where "feasibleCasts tol skills eff tlim ce (nextAvailTimes s) is"
       "bestDamageSoFar v' = tot + damage (skills ! j) + castDamage skills is"
       "bestSequenceSoFar v' = DfsVars.castSequence s @ castNames skills is" by blast
    then have "j \<in> {j} \<and> feasibleCasts tol skills eff tlim cur (nextAvailTimes v) (j # is)
                \<and> bestDamageSoFar v' = tot + castDamage skills (j # is)
                \<and> bestSequenceSoFar v' = DfsVars.castSequence v @ castNames skills (j # is)"
      by (simp only: feas dmg nms singletonI simp_thms)
    then show ?thesis by blast
  qed
  have Q5: "\<forall>i is. i \<in> {j} \<longrightarrow> feasibleCasts tol skills eff tlim cur (nextAvailTimes v) (i # is)
                \<longrightarrow> tot + castDamage skills (i # is) \<le> bestDamageSoFar v'"
  proof (intro allI impI)
    fix i "is" assume "i \<in> {j}" and f: "feasibleCasts tol skills eff tlim cur (nextAvailTimes v) (i # is)"
    then have i: "i = j" by simp
    from f have "feasibleCasts tol skills eff tlim ce (nextAvailTimes s) is"
      unfolding i feas .
    from P5[OF this] show "tot + castDamage skills (i # is) \<le> bestDamageSoFar v'"
      unfolding i dmg .
  qed
  show ?thesis
    unfolding loopPost_def using na cs P3 Q4 Q5 by (intro conjI)
qed

lemma dfsLoop_post:
  assumes rec: "\<And>c t s s'. rec c t s = Some s' \<Longrightarrow> dfsPost tol skills eff tlim c t s s'"
  shows "dfsLoop tol skills eff tlim rec cur tot js (Some v) = Some v' \<Longrightarrow> \<forall>j\<in>set js. j < length skills
        \<Longrightarrow> loopPost tol skills eff tlim cur tot (set js) v v'"
proof (induction js arbitrary: v)
  case Nil
  then show ?case using loopPost_refl by simp
next
  case (Cons j js)
  from Cons.prems(1) obtain v1 where v1: "dfsTry tol skills eff tlim rec cur tot j v = Some v1"
    by (cases "dfsTry tol skills eff tlim rec cur tot j v") simp_all
  with Cons.prems have rest: "dfsLoop tol skills eff tlim rec cur tot js (Some v1) = Some v'" by simp
  from dfsTry_post[OF rec v1] Cons.prems(2)
  have p1: "loopPost tol skills eff tlim cur tot {j} v v1" by simp
  from Cons.IH[OF rest] Cons.prems(2)
  have p2: "loopPost tol skills eff tlim cur tot (set js) v1 v'" by simp
  from loopPost_trans[OF p1 p2] show ?case by simp
qed

lemma recordBest_loop_dfsPost:
  assumes "loopPost tol skills eff tlim cur tot {..<length skills} (recordBest tot v) v'"
  shows "dfsPost tol skills eff tlim cur tot v v'"
proof -
  let ?v0 = "recordBest tot v"
  have r: "nextAvailTimes ?v0 = nextAvailTimes v" "DfsVars.castSequence ?v0 = DfsVars.castSequence v"
    "bestDamageSoFar v \<le> bestDamageSoFar ?v0" "tot \<le> bestDamageSoFar ?v0"
    "(bestDamageSoFar ?v0 = bestDamageSoFar v \<and> bestSequenceSoFar ?v0 = bestSequenceSoFar v)
      \<or> (bestDamageSoFar ?v0 = tot \<and> bestSequenceSoFar ?v0 = DfsVars.castSequence v)"
    by (simp_all add: recordBest_def)
  from assms have a: "nextAvailTimes v' = nextAvailTimes v" "DfsVars.castSequence v' = DfsVars.castSequence v"
    "bestDamageSoFar ?v0 \<le> bestDamageSoFar v'"
    and s: "(bestDamageSoFar v' = bestDamageSoFar ?v0 \<and> bestSequenceSoFar v' = bestSequenceSoFar ?v0)
          \<or> (\<exists>i is. i < length skills \<and> feasibleCasts tol skills eff tlim cur (nextAvailTimes v) (i # is)
                \<and> bestDamageSoFar v' = tot + castDamage skills (i # is)
                \<and> bestSequenceSoFar v' = DfsVars.castSequence v @ castNames skills (i # is))"
    and c: "\<And>i is. i < length skills \<Longrightarrow> feasibleCasts tol skills eff tlim cur (nextAvailTimes v) (i # is)
                \<Longrightarrow> tot + castDamage skills (i # is) \<le> bestDamageSoFar v'"
    unfolding loopPost_def r(1,2) by (simp_all add: lessThan_iff)
  have nil: "feasibleCasts tol skills eff tlim cur (nextAvailTimes v) []
      \<and> tot = tot + castDamage skills [] \<and> DfsVars.castSequence v = DfsVars.castSequence v @ castNames skills []"
    by (simp add: castDamage_def castNames_def)
  have snd: "(bestDamageSoFar v' = bestDamageSoFar v \<and> bestSequenceSoFar v' = bestSequenceSoFar v)
          \<or> (\<exists>is. feasibleCasts tol skills eff tlim cur (nextAvailTimes v) is
                \<and> bestDamageSoFar v' = tot + castDamage skills is
                \<and> bestSequenceSoFar v' = DfsVars.castSequence v @ castNames skills is)"
  proof (rule disjE[OF s])
    assume e: "bestDamageSoFar v' = bestDamageSoFar ?v0 \<and> bestSequenceSoFar v' = bestSequenceSoFar ?v0"
    show ?thesis
    proof (rule disjE[OF r(5)])
      assume "bestDamageSoFar ?v0 = bestDamageSoFar v \<and> bestSequenceSoFar ?v0 = bestSequenceSoFar v"
      with e show ?thesis by simp
    next
      assume "bestDamageSoFar ?v0 = tot \<and> bestSequenceSoFar ?v0 = DfsVars.castSequence v"
      with e have "feasibleCasts tol skills eff tlim cur (nextAvailTimes v) []
                \<and> bestDamageSoFar v' = tot + castDamage skills []
                \<and> bestSequenceSoFar v' = DfsVars.castSequence v @ castNames skills []"
        by (simp add: castDamage_def castNames_def)
      then show ?thesis by blast
    qed
  next
    assume "\<exists>i is. i < length skills \<and> feasibleCasts tol skills eff tlim cur (nextAvailTimes v) (i # is)
                \<and> bestDamageSoFar v' = tot + castDamage skills (i # is)
                \<and> bestSequenceSoFar v' = DfsVars.castSequence v @ castNames skills (i # is)"
    then show ?thesis by blast
  qed
  have cpl: "tot + castDamage skills is \<le> bestDamageSoFar v'"
    if "feasibleCasts tol skills eff tlim cur (nextAvailTimes v) is" for "is"
  proof (cases "is")
    case Nil
    then show ?thesis using r(4) a(3) by (simp add: castDamage_def)
  next
    case (Cons i is')
    with that have "i < length skills" by simp
    with c that Cons show ?thesis by simp
  qed
  from a(3) r(3) have "bestDamageSoFar v \<le> bestDamageSoFar v'" by simp
  with a(1,2) snd cpl show ?thesis unfolding dfsPost_def by (intro conjI allI impI)
qed

lemma dfs_post:
  "dfs tol skills eff tlim fuel cur tot v = Some v' \<Longrightarrow> dfsPost tol skills eff tlim cur tot v v'"
proof (induction fuel arbitrary: cur tot v v')
  case 0
  then show ?case by simp
next
  case (Suc fuel)
  from Suc.prems have "dfsLoop tol skills eff tlim (dfs tol skills eff tlim fuel) cur tot
       [0..<length skills] (Some (recordBest tot v)) = Some v'"
    by (simp only: dfs_Suc)
  from dfsLoop_post[of "dfs tol skills eff tlim fuel", OF Suc.IH this]
  have "loopPost tol skills eff tlim cur tot {..<length skills} (recordBest tot v) v'"
    by (simp add: lessThan_atLeast0)
  then show ?case by (rule recordBest_loop_dfsPost)
qed


section \<open>Replay, independence of the fuel, termination\<close>





lemma dfsSchedule_post:
  assumes "dfsSchedule tol fuel skills gearCombo timeLimit = Some r"
  shows "(\<exists>is. feasibleCasts tol skills (effectiveRecast skills gearCombo) timeLimit 0 (map (\<lambda>_. 0) skills) is
             \<and> totalDamage r = castDamage skills is \<and> sequence r = castNames skills is)
       \<and> (\<forall>is. feasibleCasts tol skills (effectiveRecast skills gearCombo) timeLimit 0 (map (\<lambda>_. 0) skills) is
             \<longrightarrow> castDamage skills is \<le> totalDamage r)"
proof -
  let ?v0 = "\<lparr>bestDamageSoFar = 0, bestSequenceSoFar = [],
              nextAvailTimes = map (\<lambda>_. 0) skills, castSequence = []\<rparr>"
  let ?eff = "effectiveRecast skills gearCombo"
  from assms obtain v where v: "dfs tol skills ?eff timeLimit fuel 0 0 ?v0 = Some v"
    and r: "r = \<lparr>totalDamage = bestDamageSoFar v, sequence = bestSequenceSoFar v\<rparr>"
    by (auto simp: dfsSchedule_def split: option.splits)
  from dfs_post[OF v] have P: "dfsPost tol skills ?eff timeLimit 0 0 ?v0 v" .
  from P have P4: "(bestDamageSoFar v = 0 \<and> bestSequenceSoFar v = [])
          \<or> (\<exists>is. feasibleCasts tol skills ?eff timeLimit 0 (map (\<lambda>_. 0) skills) is
                \<and> bestDamageSoFar v = castDamage skills is
                \<and> bestSequenceSoFar v = castNames skills is)"
    by (simp add: dfsPost_def)
  from P have P5: "\<forall>is. feasibleCasts tol skills ?eff timeLimit 0 (map (\<lambda>_. 0) skills) is
                \<longrightarrow> castDamage skills is \<le> bestDamageSoFar v"
    by (simp add: dfsPost_def)
  have "\<exists>is. feasibleCasts tol skills ?eff timeLimit 0 (map (\<lambda>_. 0) skills) is
                \<and> bestDamageSoFar v = castDamage skills is
                \<and> bestSequenceSoFar v = castNames skills is"
  proof (rule disjE[OF P4])
    assume "bestDamageSoFar v = 0 \<and> bestSequenceSoFar v = []"
    then have "feasibleCasts tol skills ?eff timeLimit 0 (map (\<lambda>_. 0) skills) []
                \<and> bestDamageSoFar v = castDamage skills []
                \<and> bestSequenceSoFar v = castNames skills []"
      by (simp add: castDamage_def castNames_def)
    then show ?thesis by blast
  qed
  with P5 show ?thesis by (simp add: r)
qed

lemma dfsTry_mono:
  assumes "\<And>c t s s'. rec1 c t s = Some s' \<Longrightarrow> rec2 c t s = Some s'"
    and "dfsTry tol skills eff tlim rec1 cur tot j v = Some v'"
  shows "dfsTry tol skills eff tlim rec2 cur tot j v = Some v'"
  using assms(2) by (auto simp: dfsTry_def split: if_splits option.splits dest!: assms(1))

lemma dfsLoop_mono:
  assumes "\<And>c t s s'. rec1 c t s = Some s' \<Longrightarrow> rec2 c t s = Some s'"
  shows "dfsLoop tol skills eff tlim rec1 cur tot js r0 = Some v'
     \<Longrightarrow> dfsLoop tol skills eff tlim rec2 cur tot js r0 = Some v'"
proof (induction js arbitrary: r0)
  case Nil
  then show ?case by simp
next
  case (Cons j js)
  from Cons.prems obtain s where r0: "r0 = Some s" by (cases r0) simp_all
  from Cons.prems r0 obtain s1 where s1: "dfsTry tol skills eff tlim rec1 cur tot j s = Some s1"
    by (cases "dfsTry tol skills eff tlim rec1 cur tot j s") simp_all
  from dfsTry_mono[of rec1 rec2, OF assms s1]
  have s2: "dfsTry tol skills eff tlim rec2 cur tot j s = Some s1" by simp
  from Cons.prems r0 s1 have "dfsLoop tol skills eff tlim rec1 cur tot js (Some s1) = Some v'" by simp
  from Cons.IH[OF this] show ?case by (simp add: r0 s2)
qed

lemma dfs_fuel_mono:
  "dfs tol skills eff tlim fuel cur tot v = Some v' \<Longrightarrow> dfs tol skills eff tlim (fuel + k) cur tot v = Some v'"
proof (induction fuel arbitrary: cur tot v v')
  case 0
  then show ?case by simp
next
  case (Suc fuel)
  from Suc.prems have "dfsLoop tol skills eff tlim (dfs tol skills eff tlim fuel) cur tot
       [0..<length skills] (Some (recordBest tot v)) = Some v'"
    by (simp only: dfs_Suc)
  from dfsLoop_mono[of "dfs tol skills eff tlim fuel" "dfs tol skills eff tlim (fuel + k)", OF Suc.IH this]
  have "dfs tol skills eff tlim (Suc (fuel + k)) cur tot v = Some v'"
    by (simp only: dfs_Suc)
  then show ?case by simp
qed

lemma dfs_fuel_unique:
  assumes "dfs tol skills eff tlim f1 cur tot v = Some v1" "dfs tol skills eff tlim f2 cur tot v = Some v2"
  shows "v1 = v2"
proof -
  from dfs_fuel_mono[OF assms(1), of f2] dfs_fuel_mono[OF assms(2), of f1]
  show ?thesis by (simp add: add.commute)
qed

lemma dfsLoop_total:
  assumes "\<And>j s. j \<in> set js \<Longrightarrow> \<exists>s'. dfsTry tol skills eff tlim rec cur tot j s = Some s'"
  shows "\<exists>v'. dfsLoop tol skills eff tlim rec cur tot js (Some v) = Some v'"
  using assms
proof (induction js arbitrary: v)
  case Nil
  then show ?case by simp
next
  case (Cons j js)
  from Cons.prems[of j v] obtain s' where s': "dfsTry tol skills eff tlim rec cur tot j v = Some s'"
    by auto
  have "\<exists>v'. dfsLoop tol skills eff tlim rec cur tot js (Some s') = Some v'"
    by (rule Cons.IH) (simp add: Cons.prems)
  then show ?case by (simp add: s')
qed

lemma dfs_terminates_bound:
  assumes c: "0 < c" and ct: "\<forall>i<length skills. c \<le> castTimeS (skills ! i)"
  shows "tlim + tol - cur < of_nat fuel * c \<Longrightarrow> \<exists>v'. dfs tol skills eff tlim (Suc fuel) cur tot v = Some v'"
proof (induction fuel arbitrary: cur tot v)
  case 0
  have "\<exists>s'. dfsTry tol skills eff tlim (dfs tol skills eff tlim 0) cur tot j s = Some s'"
    if "j \<in> set [0..<length skills]" for j s
  proof -
    from that ct c have "0 < castTimeS (skills ! j)" by fastforce
    with 0 have "\<not> castable tol skills tlim cur (nextAvailTimes s) j"
      by (simp add: castable_def castEndOf_def max_def)
    then show ?thesis by (simp add: dfsTry_def)
  qed
  from dfsLoop_total[of "[0..<length skills]", OF this] show ?case
    by (simp only: dfs_Suc)
next
  case (Suc fuel)
  have "\<exists>s'. dfsTry tol skills eff tlim (dfs tol skills eff tlim (Suc fuel)) cur tot j s = Some s'"
    if "j \<in> set [0..<length skills]" for j s
  proof (cases "castable tol skills tlim cur (nextAvailTimes s) j")
    case False
    then show ?thesis by (simp add: dfsTry_def)
  next
    case True
    from that ct have "c \<le> castTimeS (skills ! j)" by simp
    then have "cur + c \<le> castEndOf skills cur (nextAvailTimes s) j"
      by (simp add: castEndOf_def max_def)
    moreover have "of_nat (Suc fuel) * c = of_nat fuel * c + c" by (simp add: algebra_simps)
    ultimately have "tlim + tol - castEndOf skills cur (nextAvailTimes s) j < of_nat fuel * c"
      using Suc.prems by linarith
    from Suc.IH[OF this, of "tot + damage (skills ! j)"
        "s\<lparr>nextAvailTimes := (nextAvailTimes s)
                         [j := castEndOf skills cur (nextAvailTimes s) j + eff ! j],
                     DfsVars.castSequence := DfsVars.castSequence s @ [skillName (skills ! j)]\<rparr>"]
    obtain s2 where "dfs tol skills eff tlim (Suc fuel) (castEndOf skills cur (nextAvailTimes s) j)
        (tot + damage (skills ! j))
        (s\<lparr>nextAvailTimes := (nextAvailTimes s)
                         [j := castEndOf skills cur (nextAvailTimes s) j + eff ! j],
                     DfsVars.castSequence := DfsVars.castSequence s @ [skillName (skills ! j)]\<rparr>) = Some s2"
      by blast
    then show ?thesis
      using True by (simp only: dfsTry_def if_True option.case) blast
  qed
  from dfsLoop_total[of "[0..<length skills]", OF this] show ?case
    by (simp only: dfs_Suc)
qed

lemma dfs_terminates:
  assumes "\<forall>s\<in>set skills. 0 < castTimeS s"
  shows "\<exists>fuel v'. dfs tol skills eff tlim fuel cur tot v = Some v'"
proof -
  define c where "c = (if skills = [] then 1 else Min (castTimeS ` set skills))"
  have c: "0 < c" using assms by (auto simp: c_def)
  have ct: "\<forall>i<length skills. c \<le> castTimeS (skills ! i)"
    by (auto simp: c_def)
  from ex_less_of_nat_mult[OF c, of "tlim + tol - cur"] obtain n where "tlim + tol - cur < of_nat n * c"
    by blast
  from dfs_terminates_bound[OF c ct this] show ?thesis by blast
qed


section \<open>The breadth-first search: one successor\<close>

lemma feasibleFrom_Nil [simp]: "feasibleFrom skills eff tlim st []"
  by (simp add: feasibleFrom_def)








section \<open>The breadth-first search: invariants\<close>













lemma bfsLoop_fuel_mono:
  "bfsLoop K skills eff tlim fuel v = Some v' \<Longrightarrow> bfsLoop K skills eff tlim (fuel + k) v = Some v'"
proof (induction fuel arbitrary: v)
  case 0
  then show ?case by (cases k) (simp_all split: if_splits)
next
  case (Suc fuel)
  then show ?case by (cases "queue v") simp_all
qed



section \<open>The optimizer\<close>

lemma considerCombo_inv:
  assumes inv: "setupInv res done v" and nn: "0 \<le> totalDamage (res g)"
  shows "setupInv res (done @ [g]) (considerCombo v g (res g))"
proof -
  let ?d = "totalDamage (res g)"
  let ?c = "gearCost g"
  from inv have le: "\<forall>h\<in>set done. totalDamage (res h) \<le> topDamage v"
    by (simp add: setupInv_def)
  from inv consider (init) "done = []" "topDamage v = 0" "topSequence v = []" "bestGear v = []" "bestGearCost v = Infinity"
    | (sel) pre post where "done = pre @ bestGear v # post"
               "topDamage v = totalDamage (res (bestGear v))"
               "topSequence v = sequence (res (bestGear v))"
               "bestGearCost v = Num (gearCost (bestGear v))"
               "\<forall>g\<in>set pre. totalDamage (res g) = topDamage v \<longrightarrow> gearCost (bestGear v) < gearCost g"
               "\<forall>g\<in>set post. totalDamage (res g) = topDamage v \<longrightarrow> gearCost (bestGear v) \<le> gearCost g"
    unfolding setupInv_def by blast
  then show ?thesis
  proof cases
    case init
    have v': "considerCombo v g (res g) =
        v\<lparr>topDamage := ?d, topSequence := sequence (res g), bestGear := g, bestGearCost := Num ?c\<rparr>"
    proof (cases "?d > 0")
      case True
      then show ?thesis by (simp add: considerCombo_def init gearCost_def)
    next
      case False
      with nn have "?d = 0" by simp
      then show ?thesis by (simp add: considerCombo_def init gearCost_def Let_def)
    qed
    have "done @ [g] = [] @ g # []" by (simp add: init)
    then show ?thesis
      unfolding setupInv_def v' by (intro conjI disjI2 exI[of _ "[]"]) (simp_all add: init)
  next
    case sel
    consider (gt) "?d > topDamage v" | (eq) "?d = topDamage v" "numLess ?c (bestGearCost v)"
      | (eq') "?d = topDamage v" "\<not> numLess ?c (bestGearCost v)" | (lt) "?d < topDamage v"
      by fastforce
    then show ?thesis
    proof cases
      case gt
      then have v': "considerCombo v g (res g) =
        v\<lparr>topDamage := ?d, topSequence := sequence (res g), bestGear := g, bestGearCost := Num ?c\<rparr>"
        by (simp add: considerCombo_def gearCost_def)
      have 1: "\<forall>h\<in>set (done @ [g]). totalDamage (res h) \<le> ?d"
        using le gt by fastforce
      have 2: "\<forall>h\<in>set done. totalDamage (res h) = ?d \<longrightarrow> ?c < gearCost h"
        using le gt by fastforce
      have "done @ [g] = done @ g # []" by simp
      with 1 2 show ?thesis
        unfolding setupInv_def v' by (intro conjI disjI2 exI[of _ "done"] exI[of _ "[]"]) simp_all
    next
      case eq
      then have v': "considerCombo v g (res g) =
        v\<lparr>bestGear := g, bestGearCost := Num ?c, topSequence := sequence (res g)\<rparr>"
        by (simp add: considerCombo_def gearCost_def Let_def)
      from eq(2) sel(4) have lt: "?c < gearCost (bestGear v)" by simp
      have 2: "\<forall>h\<in>set done. totalDamage (res h) = topDamage v \<longrightarrow> ?c < gearCost h"
      proof (intro ballI impI)
        fix h assume h: "h \<in> set done" "totalDamage (res h) = topDamage v"
        from h(1) sel(1) have "h \<in> set pre \<or> h = bestGear v \<or> h \<in> set post" by auto
        with h(2) sel(5,6) lt show "?c < gearCost h" by fastforce
      qed
      have "done @ [g] = done @ g # []" by simp
      with le 2 eq(1) show ?thesis
        unfolding setupInv_def v' by (intro conjI disjI2 exI[of _ "done"] exI[of _ "[]"]) simp_all
    next
      case eq'
      then have v': "considerCombo v g (res g) = v"
        by (simp add: considerCombo_def gearCost_def Let_def)
      from eq'(2) sel(4) have ge: "gearCost (bestGear v) \<le> ?c" by simp
      have "done @ [g] = pre @ bestGear v # (post @ [g])" using sel(1) by simp
      with le sel ge eq'(1) show ?thesis
        unfolding setupInv_def v'
        by (intro conjI disjI2 exI[of _ pre] exI[of _ "post @ [g]"]) simp_all
    next
      case lt
      then have v': "considerCombo v g (res g) = v"
        by (simp add: considerCombo_def)
      have "done @ [g] = pre @ bestGear v # (post @ [g])" using sel(1) by simp
      with le sel lt show ?thesis
        unfolding setupInv_def v'
        by (intro conjI disjI2 exI[of _ pre] exI[of _ "post @ [g]"]) simp_all
    qed
  qed
qed

lemma setupLoop_None:
  "fold (\<lambda>gearCombo r. case r of None \<Rightarrow> None | Some v \<Rightarrow>
             (case search skills gearCombo timeLimit of
                None \<Rightarrow> None
              | Some res \<Rightarrow> Some (considerCombo v gearCombo res))) combos None = None"
  by (induction combos) simp_all

lemma setupLoop_Cons:
  "setupLoop search skills timeLimit (g # combos) v =
     (case search skills g timeLimit of None \<Rightarrow> None
      | Some r \<Rightarrow> setupLoop search skills timeLimit combos (considerCombo v g r))"
  by (simp add: setupLoop_def setupLoop_None split: option.splits)

lemma setupLoop_Nil [simp]: "setupLoop search skills timeLimit [] v = Some v"
  by (simp add: setupLoop_def)

lemma setupLoop_inv:
  assumes nn: "\<And>g r. search skills g timeLimit = Some r \<Longrightarrow> 0 \<le> totalDamage r"
  shows "setupLoop search skills timeLimit combos v = Some v' \<Longrightarrow>
         setupInv (\<lambda>g. the (search skills g timeLimit)) done v \<Longrightarrow>
         (\<forall>g\<in>set combos. search skills g timeLimit \<noteq> None)
         \<and> setupInv (\<lambda>g. the (search skills g timeLimit)) (done @ combos) v'"
proof (induction combos arbitrary: v "done")
  case Nil
  then show ?case by simp
next
  case (Cons g combos)
  from Cons.prems(1) obtain r where r: "search skills g timeLimit = Some r"
    and rest: "setupLoop search skills timeLimit combos (considerCombo v g r) = Some v'"
    by (auto simp: setupLoop_Cons split: option.splits)
  from nn[OF r] have "0 \<le> totalDamage ((\<lambda>g. the (search skills g timeLimit)) g)" by (simp add: r)
  from considerCombo_inv[OF Cons.prems(2) this]
  have "setupInv (\<lambda>g. the (search skills g timeLimit)) (done @ [g]) (considerCombo v g r)"
    by (simp add: r)
  from Cons.IH[OF rest this] r show ?case by simp
qed

lemma dfsSchedule_nonneg:
  assumes "dfsSchedule tol fuel skills gearCombo timeLimit = Some r"
  shows "0 \<le> totalDamage r"
proof -
  from dfsSchedule_post[OF assms] have "\<forall>is. feasibleCasts tol skills (effectiveRecast skills gearCombo) timeLimit 0 (map (\<lambda>_. 0) skills) is
             \<longrightarrow> castDamage skills is \<le> totalDamage r" by blast
  from this[rule_format, of "[]"] show ?thesis by (simp add: castDamage_def)
qed

lemma findBestDpsSetupWith_selection:
  assumes nn: "\<And>g r. search skills g timeLimit = Some r \<Longrightarrow> 0 \<le> totalDamage r"
    and run: "findBestDpsSetupWith search skills timeLimit = Some out"
    and ne: "generateAllGearChoices skills \<noteq> []"
  shows "\<exists>pre post res.
           generateAllGearChoices skills = pre @ chosenGearPercents out # post
         \<and> (\<forall>g\<in>set (generateAllGearChoices skills). search skills g timeLimit = Some (res g))
         \<and> DpsResult.bestDamage out = totalDamage (res (chosenGearPercents out))
         \<and> DpsResult.castSequence out = sequence (res (chosenGearPercents out))
         \<and> bestDps out = numDivide (DpsResult.bestDamage out) timeLimit
         \<and> (\<forall>g\<in>set (generateAllGearChoices skills). totalDamage (res g) \<le> DpsResult.bestDamage out)
         \<and> (\<forall>g\<in>set pre. totalDamage (res g) = DpsResult.bestDamage out
                \<longrightarrow> gearCost (chosenGearPercents out) < gearCost g)
         \<and> (\<forall>g\<in>set post. totalDamage (res g) = DpsResult.bestDamage out
                \<longrightarrow> gearCost (chosenGearPercents out) \<le> gearCost g)"
proof -
  let ?combos = "generateAllGearChoices skills"
  let ?res = "\<lambda>g. the (search skills g timeLimit)"
  let ?v0 = "\<lparr>topDamage = 0, topSequence = [], bestGear = [], bestGearCost = Infinity\<rparr>"
  from run obtain v where v: "setupLoop search skills timeLimit ?combos ?v0 = Some v"
    and out: "out = \<lparr>bestDamage = topDamage v, bestDps = numDivide (topDamage v) timeLimit,
                chosenGearPercents = bestGear v, castSequence = topSequence v\<rparr>"
    by (auto simp: findBestDpsSetupWith_def split: option.splits)
  have i0: "setupInv ?res [] ?v0" by (simp add: setupInv_def)
  from setupLoop_inv[of search skills timeLimit ?combos ?v0 v "[]", OF nn v i0]
  have some: "\<forall>g\<in>set ?combos. search skills g timeLimit \<noteq> None"
    and inv: "setupInv ?res ?combos v" by simp_all
  from inv ne obtain pre post where sel: "?combos = pre @ bestGear v # post"
               "topDamage v = totalDamage (?res (bestGear v))"
               "topSequence v = sequence (?res (bestGear v))"
               "\<forall>g\<in>set pre. totalDamage (?res g) = topDamage v \<longrightarrow> gearCost (bestGear v) < gearCost g"
               "\<forall>g\<in>set post. totalDamage (?res g) = topDamage v \<longrightarrow> gearCost (bestGear v) \<le> gearCost g"
    unfolding setupInv_def by blast
  from inv have le: "\<forall>g\<in>set ?combos. totalDamage (?res g) \<le> topDamage v"
    by (simp add: setupInv_def)
  have "?combos = pre @ chosenGearPercents out # post
         \<and> (\<forall>g\<in>set ?combos. search skills g timeLimit = Some (?res g))
         \<and> DpsResult.bestDamage out = totalDamage (?res (chosenGearPercents out))
         \<and> DpsResult.castSequence out = sequence (?res (chosenGearPercents out))
         \<and> bestDps out = numDivide (DpsResult.bestDamage out) timeLimit
         \<and> (\<forall>g\<in>set ?combos. totalDamage (?res g) \<le> DpsResult.bestDamage out)
         \<and> (\<forall>g\<in>set pre. totalDamage (?res g) = DpsResult.bestDamage out
                \<longrightarrow> gearCost (chosenGearPercents out) < gearCost g)
         \<and> (\<forall>g\<in>set post. totalDamage (?res g) = DpsResult.bestDamage out
                \<longrightarrow> gearCost (chosenGearPercents out) \<le> gearCost g)"
    using sel le some by (simp add: out)
  then show ?thesis
    by - (rule exI[of _ pre], rule exI[of _ post], rule exI[of _ "?res"], assumption)
qed



section \<open>Further lemmas: fuel, termination, boundary cases\<close>

lemma product_lists_length: "length (product_lists xss) = prod_list (map length xss)"
  by (induction xss) (simp_all add: length_concat comp_def sum_list_triv)

lemma product_lists_empty: "[] \<in> set xss \<Longrightarrow> product_lists xss = []"
  by (induction xss) auto

lemma product_lists_nonempty: "[] \<notin> set xss \<Longrightarrow> product_lists xss \<noteq> []"
proof (induction xss)
  case Nil
  then show ?case by simp
next
  case (Cons xs xss)
  then obtain x xs' where "xs = x # xs'" by (cases xs) auto
  with Cons show ?case by simp
qed

lemma gearCost_sum_list: "gearCost g = sum_list g"
proof -
  have "foldl (+) a g = a + sum_list g" for a :: rat
    by (induction g arbitrary: a) (simp_all add: add.assoc)
  from this[of 0] show ?thesis by (simp add: gearCost_def)
qed

lemma dfsSchedule_fuel_mono:
  assumes "dfsSchedule tol fuel skills gearCombo timeLimit = Some r"
  shows "dfsSchedule tol (fuel + k) skills gearCombo timeLimit = Some r"
proof -
  let ?v0 = "\<lparr>bestDamageSoFar = 0, bestSequenceSoFar = [],
              nextAvailTimes = map (\<lambda>_. 0) skills, castSequence = []\<rparr>"
  from assms obtain v where v: "dfs tol skills (effectiveRecast skills gearCombo) timeLimit fuel 0 0 ?v0 = Some v"
    and r: "r = \<lparr>totalDamage = bestDamageSoFar v, sequence = bestSequenceSoFar v\<rparr>"
    by (auto simp: dfsSchedule_def split: option.splits)
  from dfs_fuel_mono[OF v, of k] r show ?thesis by (simp add: dfsSchedule_def)
qed

lemma dfsSchedule_fuel_unique:
  assumes "dfsSchedule tol f1 skills gearCombo timeLimit = Some r1"
    and "dfsSchedule tol f2 skills gearCombo timeLimit = Some r2"
  shows "r1 = r2"
proof -
  from dfsSchedule_fuel_mono[OF assms(1), of f2] dfsSchedule_fuel_mono[OF assms(2), of f1]
  show ?thesis by (simp add: add.commute)
qed

lemma dfsSchedule_terminates:
  assumes "\<forall>s\<in>set skills. 0 < castTimeS s"
  shows "\<exists>fuel r. dfsSchedule tol fuel skills gearCombo timeLimit = Some r"
proof -
  from dfs_terminates[OF assms, of tol "effectiveRecast skills gearCombo" timeLimit 0 0
      "\<lparr>bestDamageSoFar = 0, bestSequenceSoFar = [],
              nextAvailTimes = map (\<lambda>_. 0) skills, castSequence = []\<rparr>"]
  obtain fuel v where "dfs tol skills (effectiveRecast skills gearCombo) timeLimit fuel 0 0
      \<lparr>bestDamageSoFar = 0, bestSequenceSoFar = [],
              nextAvailTimes = map (\<lambda>_. 0) skills, castSequence = []\<rparr> = Some v" by blast
  then have "dfsSchedule tol fuel skills gearCombo timeLimit
      = Some \<lparr>totalDamage = bestDamageSoFar v, sequence = bestSequenceSoFar v\<rparr>"
    by (simp add: dfsSchedule_def)
  then show ?thesis by blast
qed

lemma dfs_instant_loops:
  assumes "0 \<le> tol"
  shows "nextAvailTimes v = [0] \<Longrightarrow> dfs tol [instantSkill] [0] 1 fuel 0 tot v = None"
proof (induction fuel arbitrary: tot v)
  case 0
  then show ?case by simp
next
  case (Suc fuel)
  have c: "castable tol [instantSkill] 1 0 [0] 0"
    using assms by (simp add: castable_def castEndOf_def instantSkill_def)
  have na: "nextAvailTimes (recordBest tot v) = [0]" using Suc.prems by (simp add: recordBest_def)
  have e: "castEndOf [instantSkill] 0 [0] 0 = 0" by (simp add: castEndOf_def instantSkill_def)
  show ?case
    unfolding dfs_Suc using c na e
    by (simp add: dfsTry_def upt_rec Suc.IH)
qed

lemma dfsSchedule_instant_loops:
  assumes "0 \<le> tol"
  shows "dfsSchedule tol fuel [instantSkill] [0] 1 = None"
proof -
  have "effectiveRecast [instantSkill] [0] = [0]"
    by (simp add: effectiveRecast_def instantSkill_def)
  then show ?thesis
    using dfs_instant_loops[OF assms, of "\<lparr>bestDamageSoFar = 0, bestSequenceSoFar = [],
              nextAvailTimes = [0], castSequence = []\<rparr>" fuel 0]
    by (simp add: dfsSchedule_def)
qed


lemma bfsRun_fuel_unique:
  assumes "bfsRun K f1 skills gearCombo timeLimit = Some v1"
    and "bfsRun K f2 skills gearCombo timeLimit = Some v2"
  shows "v1 = v2"
proof -
  from assms(1) have "bfsRun K (f1 + f2) skills gearCombo timeLimit = Some v1"
    unfolding bfsRun_def by (rule bfsLoop_fuel_mono)
  moreover from assms(2) have "bfsRun K (f2 + f1) skills gearCombo timeLimit = Some v2"
    unfolding bfsRun_def by (rule bfsLoop_fuel_mono)
  ultimately show ?thesis by (simp add: add.commute)
qed

lemma bfsSchedule_fuel_unique:
  assumes "bfsSchedule K f1 skills gearCombo timeLimit = Some r1"
    and "bfsSchedule K f2 skills gearCombo timeLimit = Some r2"
  shows "r1 = r2"
proof -
  from assms obtain v1 v2 where v: "bfsRun K f1 skills gearCombo timeLimit = Some v1"
     "bfsRun K f2 skills gearCombo timeLimit = Some v2"
    and r: "r1 = \<lparr>totalDamage = BfsVars.bestDamage v1, sequence = bestSequence v1\<rparr>"
       "r2 = \<lparr>totalDamage = BfsVars.bestDamage v2, sequence = bestSequence v2\<rparr>"
    by (auto simp: bfsSchedule_def split: option.splits)
  from bfsRun_fuel_unique[OF v] r show ?thesis by simp
qed

lemma bfsSchedule_fuel_mono:
  assumes "bfsSchedule K fuel skills gearCombo timeLimit = Some r"
  shows "bfsSchedule K (fuel + k) skills gearCombo timeLimit = Some r"
proof -
  from assms obtain v where v: "bfsRun K fuel skills gearCombo timeLimit = Some v"
    and r: "r = \<lparr>totalDamage = BfsVars.bestDamage v, sequence = bestSequence v\<rparr>"
    by (auto simp: bfsSchedule_def split: option.splits)
  from v have "bfsRun K (fuel + k) skills gearCombo timeLimit = Some v"
    unfolding bfsRun_def by (rule bfsLoop_fuel_mono)
  with r show ?thesis by (simp add: bfsSchedule_def)
qed

lemma dfsLoop_skip:
  "\<forall>j\<in>set js. \<not> castable tol skills tlim cur (nextAvailTimes v) j \<Longrightarrow>
   dfsLoop tol skills eff tlim rec cur tot js (Some v) = Some v"
  by (induction js) (simp_all add: dfsTry_def)

lemma dfsSchedule_negative_limit:
  assumes "timeLimit < 0"
  shows "dfsSchedule tol (Suc fuel) skills gearCombo timeLimit = Some \<lparr>totalDamage = 0, sequence = []\<rparr>"
proof -
  let ?v0 = "\<lparr>bestDamageSoFar = 0, bestSequenceSoFar = [],
              nextAvailTimes = map (\<lambda>_. 0) skills, castSequence = []\<rparr>"
  have r: "recordBest 0 ?v0 = ?v0" by (simp add: recordBest_def)
  have "\<forall>j\<in>set [0..<length skills]. \<not> castable tol skills timeLimit 0 (nextAvailTimes ?v0) j"
    using assms by (simp add: castable_def)
  from dfsLoop_skip[OF this]
  have "dfs tol skills (effectiveRecast skills gearCombo) timeLimit (Suc fuel) 0 0 ?v0 = Some ?v0"
    unfolding dfs_Suc r .
  then show ?thesis by (simp add: dfsSchedule_def)
qed

lemma setupLoop_all_zero:
  assumes "\<forall>g\<in>set combos. search skills g timeLimit = Some \<lparr>totalDamage = 0, sequence = []\<rparr>"
  shows "topDamage v = 0 \<Longrightarrow> topSequence v = [] \<Longrightarrow>
         \<exists>v'. setupLoop search skills timeLimit combos v = Some v' \<and> topDamage v' = 0 \<and> topSequence v' = []"
  using assms
proof (induction combos arbitrary: v)
  case Nil
  then show ?case by simp
next
  case (Cons g combos)
  let ?v1 = "considerCombo v g \<lparr>totalDamage = 0, sequence = []\<rparr>"
  have "topDamage ?v1 = 0" "topSequence ?v1 = []"
    using Cons.prems(1,2) by (simp_all add: considerCombo_def Let_def)
  from Cons.IH[OF this] Cons.prems(3) show ?case by (simp add: setupLoop_Cons)
qed










lemma findBestDpsSetupWith_total:
  assumes "\<forall>g\<in>set (generateAllGearChoices skills). \<exists>r. search skills g timeLimit = Some r"
  shows "\<exists>out. findBestDpsSetupWith search skills timeLimit = Some out"
proof -
  have "\<exists>v'. setupLoop search skills timeLimit combos v = Some v'"
    if "\<forall>g\<in>set combos. \<exists>r. search skills g timeLimit = Some r" for combos v
    using that
  proof (induction combos arbitrary: v)
    case Nil
    then show ?case by simp
  next
    case (Cons g combos)
    then obtain r where r: "search skills g timeLimit = Some r" by auto
    from Cons.IH[of "considerCombo v g r"] Cons.prems show ?case by (simp add: setupLoop_Cons r)
  qed
  from this[OF assms] obtain v' where "setupLoop search skills timeLimit (generateAllGearChoices skills)
       \<lparr>topDamage = 0, topSequence = [], bestGear = [], bestGearCost = Infinity\<rparr> = Some v'"
    by blast
  then show ?thesis
    by (simp add: findBestDpsSetupWith_def)
qed

lemma findBestDpsSetup_terminates:
  assumes "\<forall>s\<in>set skills. 0 < castTimeS s"
  shows "\<exists>fuel out. findBestDpsSetup fuel skills timeLimit = Some out"
proof -
  define c where "c = (if skills = [] then 1 else Min (castTimeS ` set skills))"
  have c: "0 < c" using assms by (auto simp: c_def)
  have ct: "\<forall>i<length skills. c \<le> castTimeS (skills ! i)"
    by (auto simp: c_def)
  from ex_less_of_nat_mult[OF c, of "timeLimit + 0 - 0"] obtain n where n: "timeLimit + 0 - 0 < of_nat n * c"
    by blast
  have "\<exists>r. findBestDamageSchedule (Suc n) skills g timeLimit = Some r" for g
  proof -
    from dfs_terminates_bound[OF c ct n, of "effectiveRecast skills g" 0
        "\<lparr>bestDamageSoFar = 0, bestSequenceSoFar = [],
              nextAvailTimes = map (\<lambda>_. 0) skills, castSequence = []\<rparr>"]
    show ?thesis by (auto simp: findBestDamageSchedule_def dfsSchedule_def)
  qed
  then have "\<forall>g\<in>set (generateAllGearChoices skills).
      \<exists>r. findBestDamageSchedule (Suc n) skills g timeLimit = Some r" by blast
  from findBestDpsSetupWith_total[of skills "findBestDamageSchedule (Suc n)" timeLimit, OF this]
  show ?thesis unfolding findBestDpsSetup_def by blast
qed

lemma considerCombo_cpp_eq:
  assumes "\<bar>totalDamage r - topDamage v\<bar> < EPS \<longrightarrow> totalDamage r = topDamage v"
  shows "considerCombo_cpp v g r = considerCombo v g r"
proof -
  have e: "(\<bar>totalDamage r - topDamage v\<bar> < EPS) = (totalDamage r = topDamage v)"
    using assms by (auto simp: EPS_def)
  show ?thesis unfolding considerCombo_cpp_def considerCombo_def Let_def e ..
qed

lemma considerCombo_topDamage:
  "topDamage (considerCombo v g r) = topDamage v \<or> topDamage (considerCombo v g r) = totalDamage r"
  by (simp add: considerCombo_def Let_def)

lemma setupLoop_cpp_None:
  "fold (\<lambda>gearCombo r. case r of None \<Rightarrow> None | Some v \<Rightarrow>
                  (case search skills gearCombo timeLimit of
                     None \<Rightarrow> None
                   | Some sr \<Rightarrow> Some (considerCombo_cpp v gearCombo sr))) combos None = None"
  by (induction combos) simp_all

lemma setupLoop_cpp_eq:
  assumes sep: "\<forall>a\<in>D. \<forall>b\<in>D. \<bar>a - b\<bar> < EPS \<longrightarrow> a = b"
    and res: "\<forall>g\<in>set combos. \<forall>r. search skills g timeLimit = Some r \<longrightarrow> totalDamage r \<in> D"
  shows "topDamage v \<in> D \<Longrightarrow>
     fold (\<lambda>gearCombo r. case r of None \<Rightarrow> None | Some v \<Rightarrow>
                  (case search skills gearCombo timeLimit of
                     None \<Rightarrow> None
                   | Some sr \<Rightarrow> Some (considerCombo_cpp v gearCombo sr))) combos (Some v)
     = setupLoop search skills timeLimit combos v"
  using res
proof (induction combos arbitrary: v)
  case Nil
  then show ?case by simp
next
  case (Cons g combos)
  show ?case
  proof (cases "search skills g timeLimit")
    case None
    then show ?thesis by (simp add: setupLoop_Cons setupLoop_cpp_None)
  next
    case (Some r)
    with Cons.prems have rD: "totalDamage r \<in> D" by simp
    with sep Cons.prems(1) have "\<bar>totalDamage r - topDamage v\<bar> < EPS \<longrightarrow> totalDamage r = topDamage v"
      by blast
    from considerCombo_cpp_eq[OF this] have e: "considerCombo_cpp v g r = considerCombo v g r" .
    from considerCombo_topDamage[of v g r] rD Cons.prems(1)
    have "topDamage (considerCombo v g r) \<in> D" by auto
    from Cons.IH[OF this] Cons.prems(2) show ?thesis
      by (simp add: setupLoop_Cons Some e)
  qed
qed

lemma findBestDpsSetup_cpp_eq:
  assumes "0 \<in> D" and "\<forall>a\<in>D. \<forall>b\<in>D. \<bar>a - b\<bar> < EPS \<longrightarrow> a = b"
    and "\<forall>g\<in>set (generateAllGearChoices skills). \<forall>r.
           findBestDamageSchedule_cpp fuel skills g timeLimit = Some r \<longrightarrow> totalDamage r \<in> D"
  shows "findBestDpsSetup_cpp fuel skills timeLimit
       = findBestDpsSetupWith (findBestDamageSchedule_cpp fuel) skills timeLimit"
  using setupLoop_cpp_eq[of D "generateAllGearChoices skills" "findBestDamageSchedule_cpp fuel" skills timeLimit
      "\<lparr>topDamage = 0, topSequence = [], bestGear = [], bestGearCost = Infinity\<rparr>", OF assms(2,3)] assms(1)
  by (simp add: findBestDpsSetup_cpp_def findBestDpsSetupWith_def)

section \<open>The depth-first search in double arithmetic: postcondition, termination\<close>

text \<open>
  The postcondition of \<open>dfsRounded\<close> holds for every rounding function: the best damage
  is the greatest accumulated damage of the cast sequences that pass the two tests.
\<close>

lemma dfsRounded_Suc:
  "dfsRounded rnd skills effRecast timeLimit bnd (Suc fuel) cur tot v =
     dfsLoopR rnd skills effRecast timeLimit bnd (dfsRounded rnd skills effRecast timeLimit bnd fuel) cur tot
       [0..<length skills] (Some (recordBest tot v))"
proof -
  have "(\<lambda>i r. case r of None \<Rightarrow> None | Some s \<Rightarrow>
            (let skill = skills ! i;
                 earliestStart = nextAvailTimes s ! i
             in if earliestStart > timeLimit then Some s
                else
                  let startTime = max cur earliestStart;
                      castEnd = rnd (startTime + castTimeS skill)
                  in if castEnd > bnd then Some s
                     else
                       let oldNextAvail = nextAvailTimes s ! i;
                           s1 = s\<lparr>nextAvailTimes := (nextAvailTimes s)[i := rnd (castEnd + effRecast ! i)],
                                   DfsVars.castSequence := DfsVars.castSequence s @ [skillName skill]\<rparr>
                       in case dfsRounded rnd skills effRecast timeLimit bnd fuel castEnd
                                 (rnd (tot + damage skill)) s1 of
                            None \<Rightarrow> None
                          | Some s2 \<Rightarrow>
                              Some (s2\<lparr>DfsVars.castSequence := butlast (DfsVars.castSequence s2),
                                        nextAvailTimes := (nextAvailTimes s2)[i := oldNextAvail]\<rparr>)))
      = (\<lambda>i r. case r of None \<Rightarrow> None | Some s \<Rightarrow>
            dfsTryR rnd skills effRecast timeLimit bnd (dfsRounded rnd skills effRecast timeLimit bnd fuel) cur tot i s)"
    by (intro ext) (simp add: dfsTryR_def castableR_def castEndR_def Let_def split: option.splits)
  then show ?thesis
    by (simp only: dfsRounded.simps dfsLoopR_def recordBest_def)
qed

lemma dfsLoopR_Nil [simp]: "dfsLoopR rnd skills eff tlim bnd rec cur tot [] r0 = r0"
  by (simp add: dfsLoopR_def)

lemma dfsLoopR_None [simp]: "dfsLoopR rnd skills eff tlim bnd rec cur tot js None = None"
  by (induction js) (simp_all add: dfsLoopR_def)

lemma dfsLoopR_Cons [simp]:
  "dfsLoopR rnd skills eff tlim bnd rec cur tot (j # js) (Some s) =
     dfsLoopR rnd skills eff tlim bnd rec cur tot js (dfsTryR rnd skills eff tlim bnd rec cur tot j s)"
  by (simp add: dfsLoopR_def)








lemma dfsTryR_mono:
  assumes "\<And>c t s s'. rec1 c t s = Some s' \<Longrightarrow> rec2 c t s = Some s'"
    and "dfsTryR rnd skills eff tlim bnd rec1 cur tot j v = Some v'"
  shows "dfsTryR rnd skills eff tlim bnd rec2 cur tot j v = Some v'"
  using assms(2) by (auto simp: dfsTryR_def split: if_splits option.splits dest!: assms(1))

lemma dfsLoopR_mono:
  assumes "\<And>c t s s'. rec1 c t s = Some s' \<Longrightarrow> rec2 c t s = Some s'"
  shows "dfsLoopR rnd skills eff tlim bnd rec1 cur tot js r0 = Some v'
     \<Longrightarrow> dfsLoopR rnd skills eff tlim bnd rec2 cur tot js r0 = Some v'"
proof (induction js arbitrary: r0)
  case Nil
  then show ?case by simp
next
  case (Cons j js)
  from Cons.prems obtain s where r0: "r0 = Some s" by (cases r0) simp_all
  from Cons.prems r0 obtain s1 where s1: "dfsTryR rnd skills eff tlim bnd rec1 cur tot j s = Some s1"
    by (cases "dfsTryR rnd skills eff tlim bnd rec1 cur tot j s") simp_all
  from dfsTryR_mono[of rec1 rec2, OF assms s1]
  have s2: "dfsTryR rnd skills eff tlim bnd rec2 cur tot j s = Some s1" by simp
  from Cons.prems r0 s1 have "dfsLoopR rnd skills eff tlim bnd rec1 cur tot js (Some s1) = Some v'" by simp
  from Cons.IH[OF this] show ?case by (simp add: r0 s2)
qed

lemma dfsRounded_fuel_mono:
  "dfsRounded rnd skills eff tlim bnd fuel cur tot v = Some v' \<Longrightarrow> dfsRounded rnd skills eff tlim bnd (fuel + k) cur tot v = Some v'"
proof (induction fuel arbitrary: cur tot v v')
  case 0
  then show ?case by simp
next
  case (Suc fuel)
  from Suc.prems have "dfsLoopR rnd skills eff tlim bnd (dfsRounded rnd skills eff tlim bnd fuel) cur tot
       [0..<length skills] (Some (recordBest tot v)) = Some v'"
    by (simp only: dfsRounded_Suc)
  from dfsLoopR_mono[of "dfsRounded rnd skills eff tlim bnd fuel" "dfsRounded rnd skills eff tlim bnd (fuel + k)", OF Suc.IH this]
  have "dfsRounded rnd skills eff tlim bnd (Suc (fuel + k)) cur tot v = Some v'"
    by (simp only: dfsRounded_Suc)
  then show ?case by simp
qed

lemma dfsRounded_fuel_unique:
  assumes "dfsRounded rnd skills eff tlim bnd f1 cur tot v = Some v1" "dfsRounded rnd skills eff tlim bnd f2 cur tot v = Some v2"
  shows "v1 = v2"
proof -
  from dfsRounded_fuel_mono[OF assms(1), of f2] dfsRounded_fuel_mono[OF assms(2), of f1]
  show ?thesis by (simp add: add.commute)
qed

lemma dfsLoopR_total:
  assumes "\<And>j s. j \<in> set js \<Longrightarrow> \<exists>s'. dfsTryR rnd skills eff tlim bnd rec cur tot j s = Some s'"
  shows "\<exists>v'. dfsLoopR rnd skills eff tlim bnd rec cur tot js (Some v) = Some v'"
  using assms
proof (induction js arbitrary: v)
  case Nil
  then show ?case by simp
next
  case (Cons j js)
  from Cons.prems[of j v] obtain s' where s': "dfsTryR rnd skills eff tlim bnd rec cur tot j v = Some s'"
    by auto
  have "\<exists>v'. dfsLoopR rnd skills eff tlim bnd rec cur tot js (Some s') = Some v'"
    by (rule Cons.IH) (simp add: Cons.prems)
  then show ?case by (simp add: s')
qed

text \<open>
  With \<open>rnd = (\<lambda>x. x)\<close> the rounded search is the exact one. It returns when every
  accepted cast advances the time by at least some \<open>c > 0\<close>.
\<close>

lemma effectiveRecastRounded_exact:
  "effectiveRecastRounded (\<lambda>x. x) skills gearCombo = effectiveRecast skills gearCombo"
  by (simp add: effectiveRecastRounded_def effectiveRecast_def)

lemma dfsRounded_exact:
  "dfsRounded (\<lambda>x. x) skills eff tlim (tlim + tol) fuel cur tot v = dfs tol skills eff tlim fuel cur tot v"
proof (induction fuel arbitrary: cur tot v)
  case 0
  then show ?case by simp
next
  case (Suc fuel)
  show ?case by (simp only: dfsRounded.simps dfs.simps Suc.IH)
qed

lemma dfsScheduleRounded_exact:
  "dfsScheduleRounded (\<lambda>x. x) (timeLimit + tol) fuel skills gearCombo timeLimit
     = dfsSchedule tol fuel skills gearCombo timeLimit"
  by (simp only: dfsScheduleRounded_def dfsSchedule_def dfsRounded_exact effectiveRecastRounded_exact)



lemma dfsRounded_terminates_bound:
  assumes c: "0 < c"
    and adv: "\<forall>i<length skills. \<forall>x. 0 \<le> x \<and> x \<le> hi \<longrightarrow> x + c \<le> rnd (x + castTimeS (skills ! i))"
    and hi: "tlim \<le> hi" "bnd \<le> hi"
  shows "0 \<le> cur \<Longrightarrow> cur \<le> hi \<Longrightarrow> hi - cur < of_nat fuel * c
     \<Longrightarrow> \<exists>v'. dfsRounded rnd skills eff tlim bnd fuel cur tot v = Some v'"
proof (induction fuel arbitrary: cur tot v)
  case 0
  then show ?case by simp
next
  case (Suc fuel)
  have "\<exists>s'. dfsTryR rnd skills eff tlim bnd (dfsRounded rnd skills eff tlim bnd fuel) cur tot j s = Some s'"
    if "j \<in> set [0..<length skills]" for j s
  proof (cases "castableR rnd skills tlim bnd cur (nextAvailTimes s) j")
    case False
    then show ?thesis by (simp add: dfsTryR_def)
  next
    case True
    define st where "st = max cur (nextAvailTimes s ! j)"
    from True have na: "nextAvailTimes s ! j \<le> tlim"
      and ce: "castEndR rnd skills cur (nextAvailTimes s) j \<le> bnd"
      by (simp_all add: castableR_def)
    from na hi(1) Suc.prems(1,2) have st: "0 \<le> st" "st \<le> hi" "cur \<le> st"
      by (simp_all add: st_def)
    from that have "j < length skills" by simp
    with adv st have "st + c \<le> rnd (st + castTimeS (skills ! j))" by blast
    then have a: "cur + c \<le> castEndR rnd skills cur (nextAvailTimes s) j"
      using st(3) by (simp add: castEndR_def st_def)
    have "of_nat (Suc fuel) * c = of_nat fuel * c + c" by (simp add: algebra_simps)
    with a Suc.prems(3) have m: "hi - castEndR rnd skills cur (nextAvailTimes s) j < of_nat fuel * c"
      by linarith
    from a c Suc.prems(1) have p: "0 \<le> castEndR rnd skills cur (nextAvailTimes s) j" by linarith
    from ce hi(2) have q: "castEndR rnd skills cur (nextAvailTimes s) j \<le> hi" by simp
    from Suc.IH[OF p q m, of "rnd (tot + damage (skills ! j))"
        "s\<lparr>nextAvailTimes := (nextAvailTimes s)
                         [j := rnd (castEndR rnd skills cur (nextAvailTimes s) j + eff ! j)],
                     DfsVars.castSequence := DfsVars.castSequence s @ [skillName (skills ! j)]\<rparr>"]
    obtain s2 where "dfsRounded rnd skills eff tlim bnd fuel (castEndR rnd skills cur (nextAvailTimes s) j)
        (rnd (tot + damage (skills ! j)))
        (s\<lparr>nextAvailTimes := (nextAvailTimes s)
                         [j := rnd (castEndR rnd skills cur (nextAvailTimes s) j + eff ! j)],
                     DfsVars.castSequence := DfsVars.castSequence s @ [skillName (skills ! j)]\<rparr>) = Some s2"
      by blast
    then show ?thesis
      using True by (simp only: dfsTryR_def if_True option.case) blast
  qed
  from dfsLoopR_total[of "[0..<length skills]", OF this] show ?case
    by (simp only: dfsRounded_Suc)
qed

lemma dfsScheduleRounded_terminates:
  assumes c: "0 < c"
    and adv: "\<forall>i<length skills. \<forall>x. 0 \<le> x \<and> x \<le> hi \<longrightarrow> x + c \<le> rnd (x + castTimeS (skills ! i))"
    and hi: "0 \<le> hi" "timeLimit \<le> hi" "bnd \<le> hi"
  shows "\<exists>fuel r. dfsScheduleRounded rnd bnd fuel skills gearCombo timeLimit = Some r"
proof -
  from ex_less_of_nat_mult[OF c, of "hi - 0"] obtain n where n: "hi - 0 < of_nat n * c"
    by blast
  have z: "(0::rat) \<le> 0" by simp
  from dfsRounded_terminates_bound[OF c adv hi(2,3) z hi(1) n,
      of "effectiveRecastRounded rnd skills gearCombo" 0
      "\<lparr>bestDamageSoFar = 0, bestSequenceSoFar = [],
              nextAvailTimes = map (\<lambda>_. 0) skills, castSequence = []\<rparr>"]
  obtain v where "dfsRounded rnd skills (effectiveRecastRounded rnd skills gearCombo) timeLimit bnd n 0 0
      \<lparr>bestDamageSoFar = 0, bestSequenceSoFar = [],
              nextAvailTimes = map (\<lambda>_. 0) skills, castSequence = []\<rparr> = Some v" by blast
  then have "dfsScheduleRounded rnd bnd n skills gearCombo timeLimit
      = Some \<lparr>totalDamage = bestDamageSoFar v, sequence = bestSequenceSoFar v\<rparr>"
    by (simp add: dfsScheduleRounded_def)
  then show ?thesis by blast
qed

lemma dfsScheduleRounded_fuel_mono:
  assumes "dfsScheduleRounded rnd bnd fuel skills gearCombo timeLimit = Some r"
  shows "dfsScheduleRounded rnd bnd (fuel + k) skills gearCombo timeLimit = Some r"
proof -
  let ?v0 = "\<lparr>bestDamageSoFar = 0, bestSequenceSoFar = [],
              nextAvailTimes = map (\<lambda>_. 0) skills, castSequence = []\<rparr>"
  from assms obtain v where v: "dfsRounded rnd skills (effectiveRecastRounded rnd skills gearCombo) timeLimit bnd fuel 0 0 ?v0 = Some v"
    and r: "r = \<lparr>totalDamage = bestDamageSoFar v, sequence = bestSequenceSoFar v\<rparr>"
    by (auto simp: dfsScheduleRounded_def split: option.splits)
  from dfsRounded_fuel_mono[OF v, of k] show ?thesis
    by (simp add: dfsScheduleRounded_def r)
qed

lemma roundDouble_values:
  "roundDouble 1 = 1" "roundDouble 2 = 2" "roundDouble (1 + 1 / 2 ^ 54) = 1"
  "roundDouble (18014398509481985 / 18014398509481984) = 1"
  "roundDouble (1 + roundDouble EPS) = 1 + 281475 / 2 ^ 48"
  by code_simp+

lemma tinyCast_loops_at_1:
  assumes b: "1 \<le> bnd" "bnd < 2"
  shows "nextAvailTimes v = [1, 1] \<Longrightarrow>
     dfsRounded roundDouble [unitCastSkill, tinyCastSkill] [0, 0] 1 bnd fuel 1 tot v = None"
proof (induction fuel arbitrary: tot v)
  case 0
  then show ?case by simp
next
  case (Suc fuel)
  have na: "nextAvailTimes (recordBest tot v) = [1, 1]" using Suc.prems by (simp add: recordBest_def)
  have c0: "\<not> castableR roundDouble [unitCastSkill, tinyCastSkill] 1 bnd 1 [1, 1] 0"
    using b by (simp add: castableR_def castEndR_def unitCastSkill_def roundDouble_values)
  have e1: "castEndR roundDouble [unitCastSkill, tinyCastSkill] 1 [1, 1] (Suc 0) = 1"
    by (simp add: castEndR_def tinyCastSkill_def roundDouble_values)
  have c1: "castableR roundDouble [unitCastSkill, tinyCastSkill] 1 bnd 1 [1, 1] (Suc 0)"
    using b by (simp add: castableR_def e1)
  show ?case
    unfolding dfsRounded_Suc using na c0 c1 e1
    by (simp add: dfsTryR_def upt_rec roundDouble_values Suc.IH)
qed

lemma tinyCast_loops_after_unit:
  assumes b: "1 \<le> bnd" "bnd < 2"
  shows "nextAvailTimes v = [1, 0] \<Longrightarrow>
     dfsRounded roundDouble [unitCastSkill, tinyCastSkill] [0, 0] 1 bnd (Suc fuel) 1 tot v = None"
proof -
  assume v: "nextAvailTimes v = [1, 0]"
  have na: "nextAvailTimes (recordBest tot v) = [1, 0]" using v by (simp add: recordBest_def)
  have c0: "\<not> castableR roundDouble [unitCastSkill, tinyCastSkill] 1 bnd 1 [1, 0] 0"
    using b by (simp add: castableR_def castEndR_def unitCastSkill_def roundDouble_values)
  have e1: "castEndR roundDouble [unitCastSkill, tinyCastSkill] 1 [1, 0] (Suc 0) = 1"
    by (simp add: castEndR_def tinyCastSkill_def roundDouble_values)
  have c1: "castableR roundDouble [unitCastSkill, tinyCastSkill] 1 bnd 1 [1, 0] (Suc 0)"
    using b by (simp add: castableR_def e1)
  show ?thesis
    unfolding dfsRounded_Suc using na c0 c1 e1
    by (simp add: dfsTryR_def upt_rec roundDouble_values tinyCast_loops_at_1[OF b])
qed

lemma tinyCast_loops:
  assumes b: "1 \<le> bnd" "bnd < 2"
  shows "dfsScheduleRounded roundDouble bnd fuel [unitCastSkill, tinyCastSkill] [0, 0] 1 = None"
proof -
  let ?v0 = "\<lparr>bestDamageSoFar = 0, bestSequenceSoFar = [],
              nextAvailTimes = [0, 0], castSequence = []\<rparr>"
  have eff: "effectiveRecastRounded roundDouble [unitCastSkill, tinyCastSkill] [0, 0] = [0, 0]"
    by (simp add: effectiveRecastRounded_def unitCastSkill_def tinyCastSkill_def upt_rec roundDouble_def)
  have "dfsRounded roundDouble [unitCastSkill, tinyCastSkill] [0, 0] 1 bnd fuel 0 0 ?v0 = None"
  proof (cases fuel)
    case 0
    then show ?thesis by simp
  next
    case (Suc f)
    have na: "nextAvailTimes (recordBest 0 ?v0) = [0, 0]" by (simp add: recordBest_def)
    have e0: "castEndR roundDouble [unitCastSkill, tinyCastSkill] 0 [0, 0] 0 = 1"
      by (simp add: castEndR_def unitCastSkill_def roundDouble_values)
    have c0: "castableR roundDouble [unitCastSkill, tinyCastSkill] 1 bnd 0 [0, 0] 0"
      using b by (simp add: castableR_def e0)
    have rec: "dfsRounded roundDouble [unitCastSkill, tinyCastSkill] [0, 0] 1 bnd f 1 tot w = None"
      if "nextAvailTimes w = [1, 0]" for tot w
    proof (cases f)
      case 0
      then show ?thesis by simp
    next
      case (Suc g)
      with tinyCast_loops_after_unit[OF b that] show ?thesis by simp
    qed
    show ?thesis
      unfolding Suc dfsRounded_Suc using na c0 e0
      by (simp add: dfsTryR_def upt_rec roundDouble_values rec)
  qed
  then show ?thesis by (simp add: dfsScheduleRounded_def eff)
qed

lemma instant_loops_double:
  assumes b: "0 \<le> bnd"
  shows "nextAvailTimes v = [0] \<Longrightarrow> dfsRounded roundDouble [instantSkill] [0] 1 bnd fuel 0 tot v = None"
proof (induction fuel arbitrary: tot v)
  case 0
  then show ?case by simp
next
  case (Suc fuel)
  have r0: "roundDouble 0 = 0" by (simp add: roundDouble_def)
  have e: "castEndR roundDouble [instantSkill] 0 [0] 0 = 0" by (simp add: castEndR_def instantSkill_def r0)
  have c: "castableR roundDouble [instantSkill] 1 bnd 0 [0] 0"
    using b by (simp add: castableR_def e)
  have na: "nextAvailTimes (recordBest tot v) = [0]" using Suc.prems by (simp add: recordBest_def)
  show ?case
    unfolding dfsRounded_Suc using c na e
    by (simp add: dfsTryR_def upt_rec r0 Suc.IH)
qed

lemma instantSkill_never_returns:
  assumes b: "0 \<le> bnd"
  shows "dfsScheduleRounded roundDouble bnd fuel [instantSkill] [0] 1 = None"
proof -
  have r0: "roundDouble 0 = 0" by (simp add: roundDouble_def)
  have "effectiveRecastRounded roundDouble [instantSkill] [0] = [0]"
    by (simp add: effectiveRecastRounded_def instantSkill_def r0)
  then show ?thesis
    using instant_loops_double[OF b, of "\<lparr>bestDamageSoFar = 0, bestSequenceSoFar = [],
              nextAvailTimes = [0], castSequence = []\<rparr>" fuel 0]
    by (simp add: dfsScheduleRounded_def)
qed




text \<open>
  \<open>roundDouble\<close> is at most half a spacing below its argument, so a cast whose duration
  is at least one spacing advances the time.
\<close>

lemma pow2_powi: "pow2 k = 2 powi k"
  by (simp add: pow2_def power_int_def inverse_eq_divide power_one_over)

lemma pow2_pos: "0 < pow2 k"
  by (simp add: pow2_powi zero_less_power_int)

lemma pow2_double: "pow2 (k + 1) = 2 * pow2 k"
  by (simp add: pow2_powi power_int_add)

lemma pow2_mono: "a \<le> b \<Longrightarrow> pow2 a \<le> pow2 b"
  by (simp add: pow2_powi power_int_increasing)

lemma bitLength_nonneg: "0 \<le> bitLength n"
proof (induction n rule: bitLength.induct)
  case (1 n)
  then show ?case by (subst bitLength.simps) simp
qed

lemma bitLength_pos: "0 < n \<Longrightarrow> 1 \<le> bitLength n"
  using bitLength_nonneg[of "n div 2"] by (subst bitLength.simps) simp

lemma bitLength_upper: "n < 2 ^ nat (bitLength n)"
proof (induction n rule: bitLength.induct)
  case (1 n)
  show ?case
  proof (cases "n \<le> 0")
    case True
    then show ?thesis by (subst bitLength.simps) simp
  next
    case False
    from 1[OF False] have "n div 2 < 2 ^ nat (bitLength (n div 2))" .
    then have "n < 2 * 2 ^ nat (bitLength (n div 2))" by linarith
    moreover have "nat (bitLength n) = Suc (nat (bitLength (n div 2)))"
      using False bitLength_nonneg[of "n div 2"] by (subst bitLength.simps) simp
    ultimately show ?thesis by simp
  qed
qed

lemma bitLength_lower: "0 < n \<Longrightarrow> 2 ^ nat (bitLength n - 1) \<le> n"
proof (induction n rule: bitLength.induct)
  case (1 n)
  from 1(2) have nz: "\<not> n \<le> 0" by simp
  have b: "bitLength n = 1 + bitLength (n div 2)"
    using nz by (subst bitLength.simps) simp
  show ?case
  proof (cases "0 < n div 2")
    case False
    then have "n div 2 \<le> 0" by simp
    then have "bitLength (n div 2) = 0" by (subst bitLength.simps) simp
    with b 1(2) show ?thesis by simp
  next
    case True
    from 1(1)[OF nz True] have "2 ^ nat (bitLength (n div 2) - 1) \<le> n div 2" .
    then have "2 * 2 ^ nat (bitLength (n div 2) - 1) \<le> n" by linarith
    moreover have "nat (bitLength n - 1) = Suc (nat (bitLength (n div 2) - 1))"
      using bitLength_pos[OF True] by (simp add: b)
    ultimately show ?thesis by simp
  qed
qed

lemma floorLog2_le:
  assumes "0 < a"
  shows "pow2 (floorLog2 a) \<le> a"
proof -
  obtain p q where pq: "quotient_of a = (p, q)" by (cases "quotient_of a")
  then have q: "0 < q" by (rule quotient_of_denom_pos)
  from pq have a: "a = of_int p / of_int q" by (rule quotient_of_div)
  with assms q have p: "0 < p" by (simp add: zero_less_divide_iff)
  define k where "k = bitLength p - bitLength q"
  show ?thesis
  proof (cases "pow2 k \<le> a")
    case True
    then show ?thesis by (simp add: floorLog2_def pq k_def Let_def)
  next
    case False
    then have f: "floorLog2 a = k - 1" by (simp add: floorLog2_def pq k_def Let_def)
    have "(of_int (2 ^ nat (bitLength p - 1)) :: rat) \<le> of_int p"
      using bitLength_lower[OF p] by (simp only: of_int_le_iff)
    then have lo: "pow2 (bitLength p - 1) \<le> of_int p"
      using bitLength_pos[OF p] by (simp add: pow2_def)
    have "(of_int q :: rat) < of_int (2 ^ nat (bitLength q))"
      using bitLength_upper[of q] by (simp only: of_int_less_iff)
    then have up: "of_int q < pow2 (bitLength q)"
      using bitLength_nonneg[of q] by (simp add: pow2_def)
    have "k - 1 = (bitLength p - 1) - bitLength q" by (simp add: k_def)
    then have "pow2 (k - 1) = pow2 (bitLength p - 1) / pow2 (bitLength q)"
      by (simp only: pow2_powi) (simp add: power_int_diff)
    also have "\<dots> \<le> of_int p / pow2 (bitLength q)"
      using lo pow2_pos[of "bitLength q"] by (simp add: divide_right_mono)
    also have "\<dots> \<le> of_int p / of_int q"
      using up p q by (simp add: frac_le)
    finally have "pow2 (k - 1) \<le> a" by (simp only: a)
    then show ?thesis by (simp only: f)
  qed
qed

lemma roundHalfEven_ge: "m - 1 / 2 \<le> of_int (roundHalfEven m)"
proof -
  have "of_int \<lfloor>m\<rfloor> \<le> m" "m < of_int \<lfloor>m\<rfloor> + 1" by linarith+
  then show ?thesis
    by (simp add: roundHalfEven_def Let_def)
qed

lemma roundDouble_ge:
  assumes y: "0 < y" and n: "y < pow2 (n + 1)" "- 1022 \<le> n"
  shows "y - pow2 (n - 53) \<le> roundDouble y"
proof -
  define e where "e = max (floorLog2 \<bar>y\<bar>) (- 1022)"
  define q where "q = pow2 (e - 52)"
  have "floorLog2 y \<le> n"
  proof (rule ccontr)
    assume "\<not> floorLog2 y \<le> n"
    then have "n + 1 \<le> floorLog2 y" by simp
    from pow2_mono[OF this] floorLog2_le[OF y] n(1) show False by simp
  qed
  with n(2) y have e: "e \<le> n" by (simp add: e_def)
  have qpos: "0 < q" by (simp add: q_def pow2_pos)
  from e have "e - 52 \<le> n - 52" by simp
  from pow2_mono[OF this] have qle: "q \<le> pow2 (n - 52)" by (simp add: q_def)
  have "pow2 (n - 53 + 1) = 2 * pow2 (n - 53)" by (rule pow2_double)
  then have half: "pow2 (n - 52) = 2 * pow2 (n - 53)" by simp
  have r: "roundDouble y = of_int (roundHalfEven (y / q)) * q"
    using y by (simp add: roundDouble_def Let_def e_def q_def)
  from roundHalfEven_ge[of "y / q"] qpos
  have "(y / q - 1 / 2) * q \<le> of_int (roundHalfEven (y / q)) * q"
    by (simp only: mult_le_cancel_right) simp
  moreover have "(y / q - 1 / 2) * q = y - q / 2" using qpos by (simp add: algebra_simps)
  ultimately have "y - q / 2 \<le> roundDouble y" by (simp add: r)
  with qle half show ?thesis by linarith
qed

lemma roundDouble_advances:
  assumes n: "- 1022 \<le> n" and x: "0 \<le> x" "x \<le> hi"
    and ct: "pow2 (n - 52) \<le> ct" "hi + ct < pow2 (n + 1)"
  shows "x + pow2 (n - 53) \<le> roundDouble (x + ct)"
proof -
  have "pow2 (n - 53 + 1) = 2 * pow2 (n - 53)" by (rule pow2_double)
  then have half: "pow2 (n - 52) = 2 * pow2 (n - 53)" by simp
  from ct(1) pow2_pos[of "n - 52"] x(1) have y: "0 < x + ct" by linarith
  from x(2) ct(2) have "x + ct < pow2 (n + 1)" by linarith
  from roundDouble_ge[OF y this n] ct(1) half show ?thesis by linarith
qed

lemma dfsScheduleRounded_terminates_double:
  assumes n: "- 1022 \<le> n" and hi: "0 \<le> hi" "timeLimit \<le> hi" "bnd \<le> hi"
    and ct: "\<forall>s\<in>set skills. pow2 (n - 52) \<le> castTimeS s \<and> hi + castTimeS s < pow2 (n + 1)"
  shows "\<exists>fuel r. dfsScheduleRounded roundDouble bnd fuel skills gearCombo timeLimit = Some r"
proof (rule dfsScheduleRounded_terminates[of "pow2 (n - 53)" skills hi roundDouble timeLimit bnd])
  show "0 < pow2 (n - 53)" by (rule pow2_pos)
  show "\<forall>i<length skills. \<forall>x. 0 \<le> x \<and> x \<le> hi \<longrightarrow> x + pow2 (n - 53) \<le> roundDouble (x + castTimeS (skills ! i))"
  proof (intro allI impI)
    fix i x assume i: "i < length skills" and x: "0 \<le> x \<and> x \<le> hi"
    from i ct have "pow2 (n - 52) \<le> castTimeS (skills ! i)" "hi + castTimeS (skills ! i) < pow2 (n + 1)"
      by simp_all
    from roundDouble_advances[OF n conjunct1[OF x] conjunct2[OF x] this]
    show "x + pow2 (n - 53) \<le> roundDouble (x + castTimeS (skills ! i))" .
  qed
qed (rule hi)+

section \<open>Runs on the demo roster\<close>


lemma fireball_fireStorm_run_more:
  "findBestDamageSchedule 6 [fireball, fireStorm] [0, 0] 10 =
     Some \<lparr>totalDamage = 31700, sequence = [''Fireball'', ''Fire Storm'', ''Fireball'']\<rparr>"
  by code_simp


lemma fireball_fireStorm_run_bfs:
  "findBestDamageSchedule_bfs 7 [fireball, fireStorm] [0, 0] 10 =
     Some \<lparr>totalDamage = 31700, sequence = [''Fireball'', ''Fire Storm'', ''Fireball'']\<rparr>"
  by code_simp

lemma fireball_fireStorm_dfs:
  "dfs 0 [fireball, fireStorm] [67 / 10, 15] 10 5 0 0
     \<lparr>bestDamageSoFar = 0, bestSequenceSoFar = [], nextAvailTimes = [0, 0], castSequence = []\<rparr>
   = Some \<lparr>bestDamageSoFar = 31700, bestSequenceSoFar = [''Fireball'', ''Fire Storm'', ''Fireball''],
          nextAvailTimes = [0, 0], castSequence = []\<rparr>"
  by code_simp


lemma fireball_fireStorm_setup:
  "findBestDpsSetup 5 [fireball, fireStorm] 8 =
     Some \<lparr>bestDamage = 31700, bestDps = Num (7925 / 2), chosenGearPercents = [15, 0],
           castSequence = [''Fireball'', ''Fire Storm'', ''Fireball'']\<rparr>"
  by code_simp

section \<open>The claims\<close>








text \<open>
  Claim C4. For every roster, \<^verbatim>\<open>generateAllGearChoices\<close> returns the Cartesian product of
  the skills' gear options: the empty roster has the one empty assignment; for a
  roster \<open>s # ss\<close> the outer loop runs over the options of \<open>s\<close> in their own order and
  the inner enumeration is that of \<open>ss\<close>; the number of assignments is the product of
  the numbers of options; the assignments are exactly the lists that pick, at each
  position, one of that skill's options.
\<close>

theorem gear_choices_cartesian_product:
  "generateAllGearChoices [] = [[]]
   \<and> (\<forall>s ss. generateAllGearChoices (s # ss) =
         concat (map (\<lambda>g. map ((#) g) (generateAllGearChoices ss)) (possibleSkillGear s)))
   \<and> length (generateAllGearChoices skills) = prod_list (map (\<lambda>s. length (possibleSkillGear s)) skills)
   \<and> set (generateAllGearChoices skills) =
       {g. length g = length skills \<and> (\<forall>i<length skills. g ! i \<in> set (possibleSkillGear (skills ! i)))}"
proof -
  have "set (product_lists (map possibleSkillGear skills)) =
       {g. length g = length skills \<and> (\<forall>i<length skills. g ! i \<in> set (possibleSkillGear (skills ! i)))}"
    by (auto simp: product_lists_set list_all2_conv_all_nth)
  then show ?thesis
    by (simp add: generateAllGearChoices_product product_lists_length comp_def)
qed

theorem gear_choices_cartesian_product_witness:
  "generateAllGearChoices [fireball, fireStorm] = [[0, 0], [0, 30], [15, 0], [15, 30]]
   \<and> length (generateAllGearChoices [fireball, fireStorm]) = 2 * 2
   \<and> [15, 0] \<in> set (generateAllGearChoices [fireball, fireStorm])"
proof -
  have g: "possibleSkillGear fireball = [0, 15]" "possibleSkillGear fireStorm = [0, 30]"
    by (simp_all add: fireball_def fireStorm_def)
  from gear_choices_cartesian_product[of "[fireball, fireStorm]"]
  show ?thesis by (simp add: g)
qed

text \<open>
  Claim C5 fails on \<^verbatim>\<open>main.cpp\<close>, whose tie is a damage within \<open>EPS\<close> of the best one
  (\<^verbatim>\<open>fabs(comboDamage - topDamage) < EPS\<close>) where \<^verbatim>\<open>main.ts\<close> tests \<^verbatim>\<open>===\<close>. On
  \<open>nearTieSkill\<close> with time limit 8 the assignment \<open>[50]\<close> has damage \<open>2 ^ - 33\<close> and the
  assignment \<open>[0]\<close> the strictly lower damage \<open>2 ^ - 34\<close>. \<^verbatim>\<open>main.cpp\<close> returns the
  assignment \<open>[0]\<close> and its sequence of one cast, together with the damage of the
  assignment \<open>[50]\<close>: the strictly greater damage did not win, and the returned
  damage is not the damage of the returned assignment. \<^verbatim>\<open>main.ts\<close> returns the
  assignment \<open>[50]\<close> and its two casts.
\<close>

theorem cpp_tie_tolerance_overrides_damage:
  "findBestDamageSchedule_cpp 3 [nearTieSkill] [50] 8
     = Some \<lparr>totalDamage = 1 / 2 ^ 33, sequence = [''Spark'', ''Spark'']\<rparr>
   \<and> findBestDamageSchedule_cpp 3 [nearTieSkill] [0] 8
     = Some \<lparr>totalDamage = 1 / 2 ^ 34, sequence = [''Spark'']\<rparr>
   \<and> generateAllGearChoices [nearTieSkill] = [[50], [0]]
   \<and> findBestDpsSetup_cpp 3 [nearTieSkill] 8
     = Some \<lparr>bestDamage = 1 / 2 ^ 33, bestDps = Num (1 / 2 ^ 36),
             chosenGearPercents = [0], castSequence = [''Spark'']\<rparr>
   \<and> findBestDpsSetup 3 [nearTieSkill] 8
     = Some \<lparr>bestDamage = 1 / 2 ^ 33, bestDps = Num (1 / 2 ^ 36),
             chosenGearPercents = [50], castSequence = [''Spark'', ''Spark'']\<rparr>"
proof -
  have 1: "findBestDamageSchedule_cpp 3 [nearTieSkill] [50] 8
     = Some \<lparr>totalDamage = 1 / 2 ^ 33, sequence = [''Spark'', ''Spark'']\<rparr>"
    by code_simp
  have 2: "findBestDamageSchedule_cpp 3 [nearTieSkill] [0] 8
     = Some \<lparr>totalDamage = 1 / 2 ^ 34, sequence = [''Spark'']\<rparr>"
    by code_simp
  have 3: "generateAllGearChoices [nearTieSkill] = [[50], [0]]"
    by code_simp
  have 4: "findBestDpsSetup_cpp 3 [nearTieSkill] 8
     = Some \<lparr>bestDamage = 1 / 2 ^ 33, bestDps = Num (1 / 2 ^ 36),
             chosenGearPercents = [0], castSequence = [''Spark'']\<rparr>"
    by code_simp
  have 5: "findBestDpsSetup 3 [nearTieSkill] 8
     = Some \<lparr>bestDamage = 1 / 2 ^ 33, bestDps = Num (1 / 2 ^ 36),
             chosenGearPercents = [50], castSequence = [''Spark'', ''Spark'']\<rparr>"
    by code_simp
  from 1 2 3 4 5 show ?thesis by (intro conjI)
qed

theorem cpp_tie_tolerance_overrides_damage_witness:
  "findBestDamageSchedule_cpp 3 [nearTieSkill] [50] 8
     = Some \<lparr>totalDamage = 1 / 2 ^ 33, sequence = [''Spark'', ''Spark'']\<rparr>
   \<and> findBestDpsSetup_cpp 3 [nearTieSkill] 8
     = Some \<lparr>bestDamage = 1 / 2 ^ 33, bestDps = Num (1 / 2 ^ 36),
             chosenGearPercents = [0], castSequence = [''Spark'']\<rparr>"
  by (rule conjI[OF conjunct1[OF cpp_tie_tolerance_overrides_damage]
        conjunct1[OF conjunct2[OF conjunct2[OF conjunct2[OF cpp_tie_tolerance_overrides_damage]]]]])

text \<open>
  The optimizer of \<^verbatim>\<open>main.ts\<close> makes the selection that \<^verbatim>\<open>main.cpp\<close> misses. On a roster
  whose skills all have a modifier option, the assignment that \<^verbatim>\<open>findBestDpsSetup\<close> of
  \<^verbatim>\<open>main.ts\<close> returns is one of the enumerated assignments; its search result is the
  returned damage and sequence; no enumerated assignment has a greater damage; among
  the assignments of equal damage, those enumerated before it have a strictly greater
  sum of percentages and those enumerated after it have a sum at least as great. The
  optimizer returns when every cast duration is positive.
\<close>

lemma setup_optimizer_selection:
  assumes "\<forall>s\<in>set skills. possibleSkillGear s \<noteq> []"
  shows "(findBestDpsSetup fuel skills timeLimit = Some out \<longrightarrow>
          (\<exists>pre post res.
             generateAllGearChoices skills = pre @ chosenGearPercents out # post
           \<and> (\<forall>g\<in>set (generateAllGearChoices skills).
                 findBestDamageSchedule fuel skills g timeLimit = Some (res g))
           \<and> DpsResult.bestDamage out = totalDamage (res (chosenGearPercents out))
           \<and> DpsResult.castSequence out = sequence (res (chosenGearPercents out))
           \<and> (\<forall>g\<in>set (generateAllGearChoices skills). totalDamage (res g) \<le> DpsResult.bestDamage out)
           \<and> (\<forall>g\<in>set pre. totalDamage (res g) = DpsResult.bestDamage out
                  \<longrightarrow> sum_list (chosenGearPercents out) < sum_list g)
           \<and> (\<forall>g\<in>set post. totalDamage (res g) = DpsResult.bestDamage out
                  \<longrightarrow> sum_list (chosenGearPercents out) \<le> sum_list g)))
       \<and> ((\<forall>s\<in>set skills. 0 < castTimeS s) \<longrightarrow>
            (\<exists>fuel out. findBestDpsSetup fuel skills timeLimit = Some out))"
proof (intro conjI impI)
  assume a: "findBestDpsSetup fuel skills timeLimit = Some out"
  have ne: "generateAllGearChoices skills \<noteq> []"
    unfolding generateAllGearChoices_product using assms
    by (intro product_lists_nonempty) auto
  have nn: "0 \<le> totalDamage r" if "findBestDamageSchedule fuel skills g timeLimit = Some r" for g r
    using that dfsSchedule_nonneg[of 0 fuel skills g timeLimit r] by (simp add: findBestDamageSchedule_def)
  from a have run: "findBestDpsSetupWith (findBestDamageSchedule fuel) skills timeLimit = Some out"
    by (simp add: findBestDpsSetup_def)
  have "\<exists>pre post res.
           generateAllGearChoices skills = pre @ chosenGearPercents out # post
         \<and> (\<forall>g\<in>set (generateAllGearChoices skills).
               findBestDamageSchedule fuel skills g timeLimit = Some (res g))
         \<and> DpsResult.bestDamage out = totalDamage (res (chosenGearPercents out))
         \<and> DpsResult.castSequence out = sequence (res (chosenGearPercents out))
         \<and> bestDps out = numDivide (DpsResult.bestDamage out) timeLimit
         \<and> (\<forall>g\<in>set (generateAllGearChoices skills). totalDamage (res g) \<le> DpsResult.bestDamage out)
         \<and> (\<forall>g\<in>set pre. totalDamage (res g) = DpsResult.bestDamage out
                \<longrightarrow> gearCost (chosenGearPercents out) < gearCost g)
         \<and> (\<forall>g\<in>set post. totalDamage (res g) = DpsResult.bestDamage out
                \<longrightarrow> gearCost (chosenGearPercents out) \<le> gearCost g)"
  proof (rule findBestDpsSetupWith_selection[where search = "findBestDamageSchedule fuel"])
    fix g r assume "findBestDamageSchedule fuel skills g timeLimit = Some r"
    then show "0 \<le> totalDamage r" by (rule nn)
  qed (rule run, rule ne)
  then obtain pre post res where
    "generateAllGearChoices skills = pre @ chosenGearPercents out # post
         \<and> (\<forall>g\<in>set (generateAllGearChoices skills).
               findBestDamageSchedule fuel skills g timeLimit = Some (res g))
         \<and> DpsResult.bestDamage out = totalDamage (res (chosenGearPercents out))
         \<and> DpsResult.castSequence out = sequence (res (chosenGearPercents out))
         \<and> bestDps out = numDivide (DpsResult.bestDamage out) timeLimit
         \<and> (\<forall>g\<in>set (generateAllGearChoices skills). totalDamage (res g) \<le> DpsResult.bestDamage out)
         \<and> (\<forall>g\<in>set pre. totalDamage (res g) = DpsResult.bestDamage out
                \<longrightarrow> gearCost (chosenGearPercents out) < gearCost g)
         \<and> (\<forall>g\<in>set post. totalDamage (res g) = DpsResult.bestDamage out
                \<longrightarrow> gearCost (chosenGearPercents out) \<le> gearCost g)"
    by blast
  then have "generateAllGearChoices skills = pre @ chosenGearPercents out # post
         \<and> (\<forall>g\<in>set (generateAllGearChoices skills).
               findBestDamageSchedule fuel skills g timeLimit = Some (res g))
         \<and> DpsResult.bestDamage out = totalDamage (res (chosenGearPercents out))
         \<and> DpsResult.castSequence out = sequence (res (chosenGearPercents out))
         \<and> (\<forall>g\<in>set (generateAllGearChoices skills). totalDamage (res g) \<le> DpsResult.bestDamage out)
         \<and> (\<forall>g\<in>set pre. totalDamage (res g) = DpsResult.bestDamage out
                \<longrightarrow> sum_list (chosenGearPercents out) < sum_list g)
         \<and> (\<forall>g\<in>set post. totalDamage (res g) = DpsResult.bestDamage out
                \<longrightarrow> sum_list (chosenGearPercents out) \<le> sum_list g)"
    unfolding gearCost_sum_list by (elim conjE) (intro conjI; assumption)
  then show "\<exists>pre post res.
             generateAllGearChoices skills = pre @ chosenGearPercents out # post
           \<and> (\<forall>g\<in>set (generateAllGearChoices skills).
                 findBestDamageSchedule fuel skills g timeLimit = Some (res g))
           \<and> DpsResult.bestDamage out = totalDamage (res (chosenGearPercents out))
           \<and> DpsResult.castSequence out = sequence (res (chosenGearPercents out))
           \<and> (\<forall>g\<in>set (generateAllGearChoices skills). totalDamage (res g) \<le> DpsResult.bestDamage out)
           \<and> (\<forall>g\<in>set pre. totalDamage (res g) = DpsResult.bestDamage out
                  \<longrightarrow> sum_list (chosenGearPercents out) < sum_list g)
           \<and> (\<forall>g\<in>set post. totalDamage (res g) = DpsResult.bestDamage out
                  \<longrightarrow> sum_list (chosenGearPercents out) \<le> sum_list g)"
    by - (rule exI[of _ pre], rule exI[of _ post], rule exI[of _ res], assumption)
next
  assume "\<forall>s\<in>set skills. 0 < castTimeS s"
  then show "\<exists>fuel out. findBestDpsSetup fuel skills timeLimit = Some out"
    by (rule findBestDpsSetup_terminates)
qed

lemma setup_optimizer_selection_witness:
  "(\<exists>pre post res.
       generateAllGearChoices [fireball, fireStorm] = pre @ [15, 0] # post
     \<and> (\<forall>g\<in>set (generateAllGearChoices [fireball, fireStorm]).
           findBestDamageSchedule 5 [fireball, fireStorm] g 8 = Some (res g))
     \<and> 31700 = totalDamage (res [15, 0])
     \<and> [''Fireball'', ''Fire Storm'', ''Fireball''] = sequence (res [15, 0])
     \<and> (\<forall>g\<in>set (generateAllGearChoices [fireball, fireStorm]). totalDamage (res g) \<le> 31700)
     \<and> (\<forall>g\<in>set pre. totalDamage (res g) = 31700 \<longrightarrow> sum_list [15, 0] < sum_list g)
     \<and> (\<forall>g\<in>set post. totalDamage (res g) = 31700 \<longrightarrow> sum_list [15, 0] \<le> sum_list g))
   \<and> (\<exists>fuel out. findBestDpsSetup fuel [fireball, fireStorm] 8 = Some out)"
proof -
  let ?out = "\<lparr>bestDamage = 31700, bestDps = Num (7925 / 2), chosenGearPercents = [15, 0],
           castSequence = [''Fireball'', ''Fire Storm'', ''Fireball'']\<rparr>"
  have 1: "\<forall>s\<in>set [fireball, fireStorm]. possibleSkillGear s \<noteq> []"
    by (simp add: fireball_def fireStorm_def)
  have 4: "\<forall>s\<in>set [fireball, fireStorm]. 0 < castTimeS s"
    by (simp add: fireball_def fireStorm_def)
  have s: "chosenGearPercents ?out = [15, 0]" "DpsResult.bestDamage ?out = 31700"
     "DpsResult.castSequence ?out = [''Fireball'', ''Fire Storm'', ''Fireball'']"
    by simp_all
  note T = setup_optimizer_selection[OF 1, of 5 8 ?out, unfolded s]
  from mp[OF conjunct1[OF T] fireball_fireStorm_setup] mp[OF conjunct2[OF T] 4]
  show ?thesis by (rule conjI)
qed

text \<open>
  The optimizer of \<^verbatim>\<open>main.cpp\<close> makes the same selection on its own search, provided
  no two different damages (0 among them) are within \<open>EPS\<close> of each other, so that its
  ties are ties.
\<close>

lemma cpp_setup_selection:
  assumes gear: "\<forall>s\<in>set skills. possibleSkillGear s \<noteq> []"
    and zero: "0 \<in> D" and sep: "\<forall>a\<in>D. \<forall>b\<in>D. \<bar>a - b\<bar> < EPS \<longrightarrow> a = b"
    and dmg: "\<forall>g\<in>set (generateAllGearChoices skills). \<forall>r.
           findBestDamageSchedule_cpp fuel skills g timeLimit = Some r \<longrightarrow> totalDamage r \<in> D"
    and run: "findBestDpsSetup_cpp fuel skills timeLimit = Some out"
  shows "\<exists>pre post res.
           generateAllGearChoices skills = pre @ chosenGearPercents out # post
         \<and> (\<forall>g\<in>set (generateAllGearChoices skills).
               findBestDamageSchedule_cpp fuel skills g timeLimit = Some (res g))
         \<and> DpsResult.bestDamage out = totalDamage (res (chosenGearPercents out))
         \<and> DpsResult.castSequence out = sequence (res (chosenGearPercents out))
         \<and> bestDps out = numDivide (DpsResult.bestDamage out) timeLimit
         \<and> (\<forall>g\<in>set (generateAllGearChoices skills). totalDamage (res g) \<le> DpsResult.bestDamage out)
         \<and> (\<forall>g\<in>set pre. totalDamage (res g) = DpsResult.bestDamage out
                \<longrightarrow> gearCost (chosenGearPercents out) < gearCost g)
         \<and> (\<forall>g\<in>set post. totalDamage (res g) = DpsResult.bestDamage out
                \<longrightarrow> gearCost (chosenGearPercents out) \<le> gearCost g)"
proof (rule findBestDpsSetupWith_selection[where search = "findBestDamageSchedule_cpp fuel"])
  fix g r assume "findBestDamageSchedule_cpp fuel skills g timeLimit = Some r"
  then show "0 \<le> totalDamage r"
    using dfsSchedule_nonneg[of EPS fuel skills g timeLimit r] by (simp add: findBestDamageSchedule_cpp_def)
next
  from run show "findBestDpsSetupWith (findBestDamageSchedule_cpp fuel) skills timeLimit = Some out"
    unfolding findBestDpsSetup_cpp_eq[OF zero sep dmg] .
next
  show "generateAllGearChoices skills \<noteq> []"
    unfolding generateAllGearChoices_product using gear
    by (intro product_lists_nonempty) auto
qed

text \<open>
  Claim C6 as stated fails: on inputs with a validation failure (a negative damage, an
  empty set of modifier options, a modifier of 150 percent, a time limit of 0 or
  \<open>- 1\<close>) the optimizer returns a result, for most of them the zero-damage one.
\<close>

theorem validation_failure_counterexample:
  "validationFailure [negativeDamageSkill] 11
   \<and> findBestDpsSetup 3 [negativeDamageSkill] 11
       = Some \<lparr>bestDamage = 0, bestDps = Num 0, chosenGearPercents = [0], castSequence = []\<rparr>
   \<and> validationFailure [noGearSkill] 11
   \<and> findBestDpsSetup 3 [noGearSkill] 11
       = Some \<lparr>bestDamage = 0, bestDps = Num 0, chosenGearPercents = [], castSequence = []\<rparr>
   \<and> validationFailure [overGearSkill] 3
   \<and> findBestDpsSetup 4 [overGearSkill] 3
       = Some \<lparr>bestDamage = 30, bestDps = Num 10, chosenGearPercents = [150],
               castSequence = [''Action'', ''Action'', ''Action'']\<rparr>
   \<and> validationFailure [scenarioA] 0
   \<and> findBestDpsSetup 1 [scenarioA] 0
       = Some \<lparr>bestDamage = 0, bestDps = NaN, chosenGearPercents = [0], castSequence = []\<rparr>
   \<and> validationFailure [scenarioA] (- 1)
   \<and> findBestDpsSetup 1 [scenarioA] (- 1)
       = Some \<lparr>bestDamage = 0, bestDps = Num 0, chosenGearPercents = [0], castSequence = []\<rparr>"
proof -
  have v: "validationFailure [negativeDamageSkill] 11" "validationFailure [noGearSkill] 11"
     "validationFailure [overGearSkill] 3" "validationFailure [scenarioA] 0"
     "validationFailure [scenarioA] (- 1)"
    by (simp_all add: validationFailure_def negativeDamageSkill_def noGearSkill_def overGearSkill_def)
  have 1: "findBestDpsSetup 3 [negativeDamageSkill] 11
       = Some \<lparr>bestDamage = 0, bestDps = Num 0, chosenGearPercents = [0], castSequence = []\<rparr>"
    by code_simp
  have 2: "findBestDpsSetup 3 [noGearSkill] 11
       = Some \<lparr>bestDamage = 0, bestDps = Num 0, chosenGearPercents = [], castSequence = []\<rparr>"
    by code_simp
  have 3: "findBestDpsSetup 4 [overGearSkill] 3
       = Some \<lparr>bestDamage = 30, bestDps = Num 10, chosenGearPercents = [150],
               castSequence = [''Action'', ''Action'', ''Action'']\<rparr>"
    by code_simp
  have 4: "findBestDpsSetup 1 [scenarioA] 0
       = Some \<lparr>bestDamage = 0, bestDps = NaN, chosenGearPercents = [0], castSequence = []\<rparr>"
    by code_simp
  have 5: "findBestDpsSetup 1 [scenarioA] (- 1)
       = Some \<lparr>bestDamage = 0, bestDps = Num 0, chosenGearPercents = [0], castSequence = []\<rparr>"
    by code_simp
  from v 1 2 3 4 5 show ?thesis by (intro conjI)
qed

text \<open>
  Claim C6, as amended. \<^verbatim>\<open>findBestDpsSetup\<close> validates nothing and signals no error. On
  a negative time limit it returns, for every roster, damage 0, damage per time unit
  0 and the empty sequence; on a roster with a skill that has no modifier option it
  returns damage 0, the empty assignment and the empty sequence.
\<close>

theorem setup_without_validation:
  "(timeLimit < 0 \<longrightarrow>
      (\<exists>out. findBestDpsSetup (Suc fuel) skills timeLimit = Some out
            \<and> DpsResult.bestDamage out = 0 \<and> bestDps out = Num 0 \<and> DpsResult.castSequence out = []))
   \<and> ((\<exists>s\<in>set skills. possibleSkillGear s = []) \<longrightarrow>
        findBestDpsSetup fuel skills timeLimit
          = Some \<lparr>bestDamage = 0, bestDps = numDivide 0 timeLimit, chosenGearPercents = [],
                  castSequence = []\<rparr>)"
proof (intro conjI impI)
  assume neg: "timeLimit < 0"
  let ?v0 = "\<lparr>topDamage = 0, topSequence = [], bestGear = [], bestGearCost = Infinity\<rparr>"
  have "\<forall>g\<in>set (generateAllGearChoices skills).
          findBestDamageSchedule (Suc fuel) skills g timeLimit = Some \<lparr>totalDamage = 0, sequence = []\<rparr>"
    using dfsSchedule_negative_limit[OF neg, of 0 fuel skills] by (simp add: findBestDamageSchedule_def)
  from setupLoop_all_zero[of "generateAllGearChoices skills" "findBestDamageSchedule (Suc fuel)" skills timeLimit ?v0, OF this]
  obtain v' where "setupLoop (findBestDamageSchedule (Suc fuel)) skills timeLimit (generateAllGearChoices skills) ?v0 = Some v'"
    "topDamage v' = 0" "topSequence v' = []" by auto
  then have "findBestDpsSetup (Suc fuel) skills timeLimit
      = Some \<lparr>bestDamage = 0, bestDps = Num 0, chosenGearPercents = bestGear v', castSequence = []\<rparr>"
    using neg by (simp add: findBestDpsSetup_def findBestDpsSetupWith_def numDivide_def)
  then show "\<exists>out. findBestDpsSetup (Suc fuel) skills timeLimit = Some out
            \<and> DpsResult.bestDamage out = 0 \<and> bestDps out = Num 0 \<and> DpsResult.castSequence out = []"
    by simp
next
  assume "\<exists>s\<in>set skills. possibleSkillGear s = []"
  then have "[] \<in> set (map possibleSkillGear skills)" by force
  then have "generateAllGearChoices skills = []"
    unfolding generateAllGearChoices_product by (rule product_lists_empty)
  then show "findBestDpsSetup fuel skills timeLimit
          = Some \<lparr>bestDamage = 0, bestDps = numDivide 0 timeLimit, chosenGearPercents = [],
                  castSequence = []\<rparr>"
    by (simp add: findBestDpsSetup_def findBestDpsSetupWith_def)
qed

theorem setup_without_validation_witness:
  "(\<exists>out. findBestDpsSetup (Suc 0) [scenarioA] (- 1) = Some out
            \<and> DpsResult.bestDamage out = 0 \<and> bestDps out = Num 0 \<and> DpsResult.castSequence out = [])
   \<and> findBestDpsSetup 3 [scenarioA, noGearSkill] 11
          = Some \<lparr>bestDamage = 0, bestDps = numDivide 0 11, chosenGearPercents = [],
                  castSequence = []\<rparr>"
proof -
  have 1: "(- 1 :: rat) < 0" by simp
  have 2: "\<exists>s\<in>set [scenarioA, noGearSkill]. possibleSkillGear s = []"
    by (simp add: noGearSkill_def)
  from setup_without_validation[of "- 1" 0 "[scenarioA]", THEN conjunct1, THEN mp, OF 1]
    setup_without_validation[of 11 3 "[scenarioA, noGearSkill]", THEN conjunct2, THEN mp, OF 2]
  show ?thesis by (rule conjI)
qed

text \<open>
  Claim C7 fails on the code. With time limit 1, the one cast of \<open>edgeSkill\<close> ends at
  \<open>1 + EPS / 2\<close>: both TypeScript searches reject it and return damage 0, the search of
  \<^verbatim>\<open>main.cpp\<close> accepts it and returns damage 10. And in \<^verbatim>\<open>main.cpp\<close> the second cast
  of \<open>quickSkill\<close> is rejected by the availability test, which has no tolerance,
  although it would end at \<open>1 + EPS / 2\<close>, within the tolerance of the feasibility
  test.
\<close>

theorem tolerance_differs_between_variants:
  "findBestDamageSchedule 2 [edgeSkill] [0] 1 = Some \<lparr>totalDamage = 0, sequence = []\<rparr>
   \<and> findBestDamageSchedule_bfs 2 [edgeSkill] [0] 1 = Some \<lparr>totalDamage = 0, sequence = []\<rparr>
   \<and> findBestDamageSchedule_cpp 2 [edgeSkill] [0] 1 = Some \<lparr>totalDamage = 10, sequence = [''Edge'']\<rparr>
   \<and> castEndOf [edgeSkill] 0 [0] 0 \<le> 1 + EPS
   \<and> findBestDamageSchedule_cpp 2 [quickSkill] [0] 1 = Some \<lparr>totalDamage = 10, sequence = [''Quick'']\<rparr>
   \<and> castTimeline [quickSkill] (effectiveRecast [quickSkill] [0]) 0 [0] [0, 0]
        = [(0, 1 / 4000000000, 1 + 1 / 4000000000), (1 + 1 / 4000000000, 1 + 1 / 2000000000,
           2 + 1 / 2000000000)]
   \<and> 1 + 1 / 2000000000 \<le> 1 + EPS"
proof -
  have 1: "findBestDamageSchedule 2 [edgeSkill] [0] 1 = Some \<lparr>totalDamage = 0, sequence = []\<rparr>"
    by code_simp
  have 2: "findBestDamageSchedule_bfs 2 [edgeSkill] [0] 1 = Some \<lparr>totalDamage = 0, sequence = []\<rparr>"
    by code_simp
  have 3: "findBestDamageSchedule_cpp 2 [edgeSkill] [0] 1 = Some \<lparr>totalDamage = 10, sequence = [''Edge'']\<rparr>"
    by code_simp
  have 4: "castEndOf [edgeSkill] 0 [0] 0 \<le> 1 + EPS"
    by (simp add: castEndOf_def edgeSkill_def EPS_def)
  have 5: "findBestDamageSchedule_cpp 2 [quickSkill] [0] 1 = Some \<lparr>totalDamage = 10, sequence = [''Quick'']\<rparr>"
    by code_simp
  have e: "effectiveRecast [quickSkill] [0] = [1]"
    by (simp add: effectiveRecast_def quickSkill_def)
  have 6: "castTimeline [quickSkill] (effectiveRecast [quickSkill] [0]) 0 [0] [0, 0]
        = [(0, 1 / 4000000000, 1 + 1 / 4000000000), (1 + 1 / 4000000000, 1 + 1 / 2000000000,
           2 + 1 / 2000000000)]"
    unfolding e by (simp add: castEndOf_def quickSkill_def)
  have 7: "(1::rat) + 1 / 2000000000 \<le> 1 + EPS" by (simp add: EPS_def)
  from 1 2 3 4 5 6 7 show ?thesis by (intro conjI)
qed

theorem tolerance_differs_between_variants_witness:
  "findBestDamageSchedule 2 [edgeSkill] [0] 1 = Some \<lparr>totalDamage = 0, sequence = []\<rparr>
   \<and> findBestDamageSchedule_cpp 2 [edgeSkill] [0] 1 = Some \<lparr>totalDamage = 10, sequence = [''Edge'']\<rparr>"
  by (rule conjI[OF conjunct1[OF tolerance_differs_between_variants]
        conjunct1[OF conjunct2[OF conjunct2[OF tolerance_differs_between_variants]]]])

text \<open>
  Claim C8. Scenario A: one action with cast duration 1, cooldown 5, damage 10, sole
  modifier 0, and time limit 11. Every variant of the search returns damage 20 with a
  sequence of exactly two casts, at every recursion or iteration bound of at least 3.
  The first cast runs from 0 to 1 and makes the action next available at 6; the
  second runs from 6 to 7 and makes it next available at 12; a third cast would run
  from 12 to 13 and is not legal.
\<close>

theorem scenario_A:
  "findBestDamageSchedule (3 + k) [scenarioA] [0] 11 =
      Some \<lparr>totalDamage = 20, sequence = [''Action'', ''Action'']\<rparr>
   \<and> findBestDamageSchedule_cpp (3 + k) [scenarioA] [0] 11 =
      Some \<lparr>totalDamage = 20, sequence = [''Action'', ''Action'']\<rparr>
   \<and> findBestDamageSchedule_bfs (3 + k) [scenarioA] [0] 11 =
      Some \<lparr>totalDamage = 20, sequence = [''Action'', ''Action'']\<rparr>
   \<and> castTimeline [scenarioA] (effectiveRecast [scenarioA] [0]) 0 [0] [0, 0] = [(0, 1, 6), (6, 7, 12)]
   \<and> legalCasts 0 [scenarioA] (effectiveRecast [scenarioA] [0]) 11 0 [0] [0, 0]
   \<and> \<not> legalCasts 0 [scenarioA] (effectiveRecast [scenarioA] [0]) 11 0 [0] [0, 0, 0]
   \<and> castTimeline [scenarioA] (effectiveRecast [scenarioA] [0]) 0 [0] [0, 0, 0]
        = [(0, 1, 6), (6, 7, 12), (12, 13, 18)]"
proof -
  have "dfsSchedule 0 3 [scenarioA] [0] 11 = Some \<lparr>totalDamage = 20, sequence = [''Action'', ''Action'']\<rparr>"
    by code_simp
  from dfsSchedule_fuel_mono[OF this, of k]
  have 1: "findBestDamageSchedule (3 + k) [scenarioA] [0] 11 =
      Some \<lparr>totalDamage = 20, sequence = [''Action'', ''Action'']\<rparr>"
    by (simp add: findBestDamageSchedule_def)
  have "dfsSchedule EPS 3 [scenarioA] [0] 11 = Some \<lparr>totalDamage = 20, sequence = [''Action'', ''Action'']\<rparr>"
    by code_simp
  from dfsSchedule_fuel_mono[OF this, of k]
  have 2: "findBestDamageSchedule_cpp (3 + k) [scenarioA] [0] 11 =
      Some \<lparr>totalDamage = 20, sequence = [''Action'', ''Action'']\<rparr>"
    by (simp add: findBestDamageSchedule_cpp_def)
  have "bfsSchedule 10000 3 [scenarioA] [0] 11 = Some \<lparr>totalDamage = 20, sequence = [''Action'', ''Action'']\<rparr>"
    by code_simp
  from bfsSchedule_fuel_mono[OF this, of k]
  have b: "findBestDamageSchedule_bfs (3 + k) [scenarioA] [0] 11 =
      Some \<lparr>totalDamage = 20, sequence = [''Action'', ''Action'']\<rparr>"
    by (simp add: findBestDamageSchedule_bfs_def)
  have e: "effectiveRecast [scenarioA] [0] = [5]"
    by (simp add: effectiveRecast_def scenarioA_def)
  have 3: "castTimeline [scenarioA] [5] 0 [0] [0, 0, 0] = [(0, 1, 6), (6, 7, 12), (12, 13, 18)]"
       "castTimeline [scenarioA] [5] 0 [0] [0, 0] = [(0, 1, 6), (6, 7, 12)]"
    by (simp_all add: castEndOf_def scenarioA_def)
  have 4: "legalCasts 0 [scenarioA] [5] 11 0 [0] [0, 0]" "\<not> legalCasts 0 [scenarioA] [5] 11 0 [0] [0, 0, 0]"
    by (simp_all add: castEndOf_def scenarioA_def)
  from 1 2 b 3 4 show ?thesis unfolding e by (intro conjI)
qed

theorem scenario_A_witness:
  "findBestDamageSchedule 3 [scenarioA] [0] 11 =
      Some \<lparr>totalDamage = 20, sequence = [''Action'', ''Action'']\<rparr>
   \<and> findBestDamageSchedule_cpp 3 [scenarioA] [0] 11 =
      Some \<lparr>totalDamage = 20, sequence = [''Action'', ''Action'']\<rparr>
   \<and> findBestDamageSchedule_bfs 3 [scenarioA] [0] 11 =
      Some \<lparr>totalDamage = 20, sequence = [''Action'', ''Action'']\<rparr>"
  using scenario_A[of 0] by simp

text \<open>
  Claim C10 fails on the code. The roster of \<open>unitCastSkill\<close> (cast duration 1) and
  \<open>tinyCastSkill\<close> (cast duration \<open>2 ^ - 54\<close>) has strictly positive cast durations and
  effective cooldowns 0, and with time limit 1 the search returns at no recursion
  depth, in \<^verbatim>\<open>main.ts\<close> and in \<^verbatim>\<open>main.cpp\<close>: after the first skill has been cast the
  current time is 1, a cast of the second skill ends at \<open>1 + 2 ^ - 54\<close>, which is
  rounded to 1, passes both tests and leaves the current time at 1, for ever.
\<close>

theorem absorbed_cast_duration_never_returns:
  "0 < castTimeS unitCastSkill \<and> 0 < castTimeS tinyCastSkill
   \<and> effectiveRecastRounded roundDouble [unitCastSkill, tinyCastSkill] [0, 0] = [0, 0]
   \<and> roundDouble (1 + castTimeS tinyCastSkill) = 1
   \<and> (\<forall>fuel. findBestDamageSchedule_double fuel [unitCastSkill, tinyCastSkill] [0, 0] 1 = None)
   \<and> (\<forall>fuel. findBestDamageSchedule_cpp_double fuel [unitCastSkill, tinyCastSkill] [0, 0] 1 = None)"
proof -
  have 1: "0 < castTimeS unitCastSkill" "0 < castTimeS tinyCastSkill"
    by (simp_all add: unitCastSkill_def tinyCastSkill_def)
  have 2: "effectiveRecastRounded roundDouble [unitCastSkill, tinyCastSkill] [0, 0] = [0, 0]"
    by code_simp
  have 3: "roundDouble (1 + castTimeS tinyCastSkill) = 1"
    by (simp add: tinyCastSkill_def roundDouble_values)
  have b: "(1::rat) \<le> 1" "(1::rat) < 2" "1 \<le> roundDouble (1 + roundDouble EPS)"
    "roundDouble (1 + roundDouble EPS) < 2"
    by (simp_all add: roundDouble_values)
  have 4: "\<forall>fuel. findBestDamageSchedule_double fuel [unitCastSkill, tinyCastSkill] [0, 0] 1 = None"
    using tinyCast_loops[OF b(1,2)] by (simp add: findBestDamageSchedule_double_def)
  have 5: "\<forall>fuel. findBestDamageSchedule_cpp_double fuel [unitCastSkill, tinyCastSkill] [0, 0] 1 = None"
    using tinyCast_loops[OF b(3,4)] by (simp add: findBestDamageSchedule_cpp_double_def)
  from 1 2 3 4 5 show ?thesis by (intro conjI)
qed

text \<open>
  Claim C10, amended. The depth-first search returns, at some recursion depth,
  whenever there is a \<open>c > 0\<close> such that every cast started at a time between 0 and
  the greatest time the tests let through ends, in the arithmetic of the program, at
  least \<open>c\<close> after it starts: an accepted cast then ends at least \<open>c\<close> after the
  current time and at the bound of the feasibility test at the latest. In doubles
  this holds when every cast duration is at least the spacing \<open>2 ^ (n - 52)\<close> of the
  doubles below \<open>2 ^ (n + 1)\<close>, a bound that no cast started in the time window
  reaches; a strictly positive cast duration is not enough. In exact arithmetic it
  holds when every cast duration is strictly positive. With a cast duration of 0 the
  guarantee is lost: on \<open>instantSkill\<close> the search returns at no recursion depth.
\<close>

theorem exhaustive_search_terminates_when_time_advances:
  "(0 < c \<and> 0 \<le> hi \<and> timeLimit \<le> hi \<and> bound \<le> hi
      \<and> (\<forall>i<length skills. \<forall>x. 0 \<le> x \<and> x \<le> hi \<longrightarrow> x + c \<le> rnd (x + castTimeS (skills ! i)))
      \<longrightarrow> (\<exists>fuel r. dfsScheduleRounded rnd bound fuel skills gearCombo timeLimit = Some r))
   \<and> (0 < c \<and> 0 \<le> cur \<and> max cur (na ! i) \<le> hi \<and> i < length skills
      \<and> (\<forall>i<length skills. \<forall>x. 0 \<le> x \<and> x \<le> hi \<longrightarrow> x + c \<le> rnd (x + castTimeS (skills ! i)))
      \<and> castableR rnd skills timeLimit bound cur na i
      \<longrightarrow> cur + c \<le> castEndR rnd skills cur na i \<and> castEndR rnd skills cur na i \<le> bound)
   \<and> (- 1022 \<le> n \<and> 0 \<le> hi \<and> timeLimit \<le> hi
      \<and> (\<forall>s\<in>set skills. pow2 (n - 52) \<le> castTimeS s \<and> hi + castTimeS s < pow2 (n + 1))
      \<longrightarrow> (\<exists>fuel r. findBestDamageSchedule_double fuel skills gearCombo timeLimit = Some r))
   \<and> (- 1022 \<le> n \<and> 0 \<le> hi \<and> timeLimit \<le> hi \<and> roundDouble (timeLimit + roundDouble EPS) \<le> hi
      \<and> (\<forall>s\<in>set skills. pow2 (n - 52) \<le> castTimeS s \<and> hi + castTimeS s < pow2 (n + 1))
      \<longrightarrow> (\<exists>fuel r. findBestDamageSchedule_cpp_double fuel skills gearCombo timeLimit = Some r))
   \<and> ((\<forall>s\<in>set skills. 0 < castTimeS s)
      \<longrightarrow> (\<exists>fuel r. dfsScheduleRounded (\<lambda>x. x) (timeLimit + tol) fuel skills gearCombo timeLimit = Some r))
   \<and> (\<forall>fuel. findBestDamageSchedule_double fuel [instantSkill] [0] 1 = None)
   \<and> (\<forall>fuel. findBestDamageSchedule_cpp_double fuel [instantSkill] [0] 1 = None)"
proof (intro conjI impI)
  assume a: "0 < c \<and> 0 \<le> hi \<and> timeLimit \<le> hi \<and> bound \<le> hi
      \<and> (\<forall>i<length skills. \<forall>x. 0 \<le> x \<and> x \<le> hi \<longrightarrow> x + c \<le> rnd (x + castTimeS (skills ! i)))"
  then have c: "0 < c" and hi: "0 \<le> hi" "timeLimit \<le> hi" "bound \<le> hi"
    and adv: "\<forall>i<length skills. \<forall>x. 0 \<le> x \<and> x \<le> hi \<longrightarrow> x + c \<le> rnd (x + castTimeS (skills ! i))"
    by simp_all
  from dfsScheduleRounded_terminates[OF c adv hi]
  show "\<exists>fuel r. dfsScheduleRounded rnd bound fuel skills gearCombo timeLimit = Some r" .
next
  assume a: "0 < c \<and> 0 \<le> cur \<and> max cur (na ! i) \<le> hi \<and> i < length skills
      \<and> (\<forall>i<length skills. \<forall>x. 0 \<le> x \<and> x \<le> hi \<longrightarrow> x + c \<le> rnd (x + castTimeS (skills ! i)))
      \<and> castableR rnd skills timeLimit bound cur na i"
  then have cur: "0 \<le> cur" and m: "max cur (na ! i) \<le> hi" and i: "i < length skills"
    and adv: "\<forall>i<length skills. \<forall>x. 0 \<le> x \<and> x \<le> hi \<longrightarrow> x + c \<le> rnd (x + castTimeS (skills ! i))"
    by simp_all
  from cur have "0 \<le> max cur (na ! i)" by simp
  with adv i m have "max cur (na ! i) + c \<le> rnd (max cur (na ! i) + castTimeS (skills ! i))"
    by blast
  then show "cur + c \<le> castEndR rnd skills cur na i"
    by (simp add: castEndR_def)
  from a show "castEndR rnd skills cur na i \<le> bound"
    by (simp add: castableR_def)
next
  assume a: "- 1022 \<le> n \<and> 0 \<le> hi \<and> timeLimit \<le> hi
      \<and> (\<forall>s\<in>set skills. pow2 (n - 52) \<le> castTimeS s \<and> hi + castTimeS s < pow2 (n + 1))"
  then have n: "- 1022 \<le> n" and hi: "0 \<le> hi" "timeLimit \<le> hi" "timeLimit \<le> hi"
    and ct: "\<forall>s\<in>set skills. pow2 (n - 52) \<le> castTimeS s \<and> hi + castTimeS s < pow2 (n + 1)"
    by simp_all
  from dfsScheduleRounded_terminates_double[OF n hi ct]
  show "\<exists>fuel r. findBestDamageSchedule_double fuel skills gearCombo timeLimit = Some r"
    by (simp only: findBestDamageSchedule_double_def)
next
  assume a: "- 1022 \<le> n \<and> 0 \<le> hi \<and> timeLimit \<le> hi \<and> roundDouble (timeLimit + roundDouble EPS) \<le> hi
      \<and> (\<forall>s\<in>set skills. pow2 (n - 52) \<le> castTimeS s \<and> hi + castTimeS s < pow2 (n + 1))"
  then have n: "- 1022 \<le> n" and hi: "0 \<le> hi" "timeLimit \<le> hi" "roundDouble (timeLimit + roundDouble EPS) \<le> hi"
    and ct: "\<forall>s\<in>set skills. pow2 (n - 52) \<le> castTimeS s \<and> hi + castTimeS s < pow2 (n + 1)"
    by simp_all
  from dfsScheduleRounded_terminates_double[OF n hi ct]
  show "\<exists>fuel r. findBestDamageSchedule_cpp_double fuel skills gearCombo timeLimit = Some r"
    by (simp only: findBestDamageSchedule_cpp_double_def)
next
  assume "\<forall>s\<in>set skills. 0 < castTimeS s"
  from dfsSchedule_terminates[OF this, of tol gearCombo timeLimit]
  show "\<exists>fuel r. dfsScheduleRounded (\<lambda>x. x) (timeLimit + tol) fuel skills gearCombo timeLimit = Some r"
    by (simp only: dfsScheduleRounded_exact)
next
  have b: "(0::rat) \<le> 1" "0 \<le> roundDouble (1 + roundDouble EPS)"
    by (simp_all add: roundDouble_values)
  show "\<forall>fuel. findBestDamageSchedule_double fuel [instantSkill] [0] 1 = None"
    using instantSkill_never_returns[OF b(1)] by (simp add: findBestDamageSchedule_double_def)
  show "\<forall>fuel. findBestDamageSchedule_cpp_double fuel [instantSkill] [0] 1 = None"
    using instantSkill_never_returns[OF b(2)] by (simp add: findBestDamageSchedule_cpp_double_def)
qed

theorem exhaustive_search_terminates_when_time_advances_witness:
  "(\<exists>fuel r. dfsScheduleRounded roundDouble 11 fuel [slowSkill] [70] 11 = Some r)
   \<and> (0 + pow2 (- 50) \<le> castEndR roundDouble [slowSkill] 0 [0] 0
        \<and> castEndR roundDouble [slowSkill] 0 [0] 0 \<le> 11)
   \<and> (\<exists>fuel r. findBestDamageSchedule_double fuel [slowSkill] [70] 11 = Some r)
   \<and> (\<exists>fuel r. findBestDamageSchedule_cpp_double fuel [slowSkill] [70] 11 = Some r)
   \<and> (\<exists>fuel r. dfsScheduleRounded (\<lambda>x. x) (11 + 0) fuel [slowSkill] [70] 11 = Some r)"
proof -
  note T = exhaustive_search_terminates_when_time_advances[of "pow2 (- 50)" 12 11 11 "[slowSkill]"
      roundDouble "[70]" 0 "[0]" 0 3 0]
  have n: "- 1022 \<le> (3::int)" by simp
  have p: "pow2 (3 - 52) \<le> 1" "(12::rat) + 1 < pow2 (3 + 1)" "(0::rat) < pow2 (- 50)"
    by (simp_all add: pow2_def)
  have adv: "\<forall>i<length [slowSkill]. \<forall>x. 0 \<le> x \<and> x \<le> 12 \<longrightarrow>
      x + pow2 (- 50) \<le> roundDouble (x + castTimeS ([slowSkill] ! i))"
  proof (intro allI impI)
    fix i x assume "i < length [slowSkill]" and x: "0 \<le> x \<and> x \<le> (12::rat)"
    then have i: "castTimeS ([slowSkill] ! i) = 1" by (simp add: slowSkill_def)
    from roundDouble_advances[OF n conjunct1[OF x] conjunct2[OF x] p(1,2)]
    show "x + pow2 (- 50) \<le> roundDouble (x + castTimeS ([slowSkill] ! i))"
      by (simp add: i)
  qed
  have ct: "\<forall>s\<in>set [slowSkill]. pow2 (3 - 52) \<le> castTimeS s \<and> 12 + castTimeS s < pow2 (3 + 1)"
    using p by (simp add: slowSkill_def)
  have bd: "roundDouble (11 + roundDouble EPS) \<le> 12" by code_simp
  have cb: "castableR roundDouble [slowSkill] 11 11 0 [0] 0"
    by (simp add: castableR_def castEndR_def slowSkill_def roundDouble_values)
  have pos: "\<forall>s\<in>set [slowSkill]. 0 < castTimeS s" by (simp add: slowSkill_def)
  have h1: "0 < pow2 (- 50) \<and> (0::rat) \<le> 12 \<and> (11::rat) \<le> 12 \<and> (11::rat) \<le> 12
      \<and> (\<forall>i<length [slowSkill]. \<forall>x. 0 \<le> x \<and> x \<le> 12 \<longrightarrow>
            x + pow2 (- 50) \<le> roundDouble (x + castTimeS ([slowSkill] ! i)))"
    using p(3) adv by simp
  have h2: "0 < pow2 (- 50) \<and> (0::rat) \<le> 0 \<and> max 0 ([0] ! 0) \<le> (12::rat) \<and> 0 < length [slowSkill]
      \<and> (\<forall>i<length [slowSkill]. \<forall>x. 0 \<le> x \<and> x \<le> 12 \<longrightarrow>
            x + pow2 (- 50) \<le> roundDouble (x + castTimeS ([slowSkill] ! i)))
      \<and> castableR roundDouble [slowSkill] 11 11 0 [0] 0"
    using p(3) adv cb by simp
  have h3: "- 1022 \<le> (3::int) \<and> (0::rat) \<le> 12 \<and> (11::rat) \<le> 12
      \<and> (\<forall>s\<in>set [slowSkill]. pow2 (3 - 52) \<le> castTimeS s \<and> 12 + castTimeS s < pow2 (3 + 1))"
    using ct by simp
  have h4: "- 1022 \<le> (3::int) \<and> (0::rat) \<le> 12 \<and> (11::rat) \<le> 12 \<and> roundDouble (11 + roundDouble EPS) \<le> 12
      \<and> (\<forall>s\<in>set [slowSkill]. pow2 (3 - 52) \<le> castTimeS s \<and> 12 + castTimeS s < pow2 (3 + 1))"
    using ct bd by simp
  note A = mp[OF conjunct1[OF T] h1]
  note B = mp[OF conjunct1[OF conjunct2[OF T]] h2]
  note C = mp[OF conjunct1[OF conjunct2[OF conjunct2[OF T]]] h3]
  note D = mp[OF conjunct1[OF conjunct2[OF conjunct2[OF conjunct2[OF T]]]] h4]
  note E = mp[OF conjunct1[OF conjunct2[OF conjunct2[OF conjunct2[OF conjunct2[OF T]]]]] pos]
  show ?thesis by (rule conjI[OF A conjI[OF B conjI[OF C conjI[OF D E]]]])
qed

end
